theory Spec2Isabelle
  imports Complex_Main "HOL-Library.AList"
begin

section \<open>Characters, strings and errors\<close>

text \<open>
  A Python \<open>str\<close> is a sequence of Unicode code points, and \<open>sorted\<close> orders
  one-character strings by code point. A character is therefore modelled by its code
  point, a natural number, and a string by the list of its code points.
\<close>

type_synonym uchar = nat
type_synonym ustring = "uchar list"

definition TAB :: uchar where
  "TAB = 9"

definition NEWLINE :: uchar where
  "NEWLINE = 10"

definition SPACE :: uchar where
  "SPACE = 32"

text \<open>The exceptions that the notebook's statements can raise.\<close>

datatype error = ValueError | KeyError | IndexError | NameError

text \<open>Sequencing of statements: the first exception ends the computation.\<close>

definition and_then :: "error + 'a \<Rightarrow> ('a \<Rightarrow> error + 'b) \<Rightarrow> error + 'b" where
  "and_then r f = (case r of Inl e \<Rightarrow> Inl e | Inr v \<Rightarrow> f v)"

text \<open>
  \<open>s.split(sep)\<close> for a one-character separator: the fields between the
  occurrences of \<open>sep\<close>; there is always at least one field.
\<close>

fun str_split :: "uchar \<Rightarrow> ustring \<Rightarrow> ustring list" where
  "str_split sep [] = [[]]"
| "str_split sep (ch # s) =
     (if ch = sep then [] # str_split sep s
      else (case str_split sep s of
              [] \<Rightarrow> [[ch]]
            | field # fields \<Rightarrow> (ch # field) # fields))"

section \<open>Configuration\<close>

definition latent_dim :: nat where
  "latent_dim = 256"

definition num_samples :: nat where
  "num_samples = 10000"

section \<open>Loading the sentence pairs\<close>

text \<open>
  The state of the loading loop. The two character sets are the Python sets
  \<open>input_characters\<close> and \<open>target_characters\<close> before they are rebound to sorted
  lists.
\<close>

record corpus =
  input_texts :: "ustring list"
  target_texts :: "ustring list"
  input_charset :: "uchar set"
  target_charset :: "uchar set"

definition empty_corpus :: corpus where
  "empty_corpus = \<lparr>input_texts = [], target_texts = [], input_charset = {}, target_charset = {}\<rparr>"

text \<open>\<open>for char in text: if char not in chars: chars.add(char)\<close>\<close>

definition add_chars :: "ustring \<Rightarrow> uchar set \<Rightarrow> uchar set" where
  "add_chars text chars = fold (\<lambda>char cs. if char \<notin> cs then insert char cs else cs) text chars"

text \<open>
  The body of the loading loop. Unpacking \<open>line.split("\t")\<close> into three names raises
  \<open>ValueError\<close> unless there are exactly three fields.
\<close>

definition read_line :: "ustring \<Rightarrow> corpus \<Rightarrow> error + corpus" where
  "read_line line st =
     (let fields = str_split TAB line in
      if length fields \<noteq> 3 then Inl ValueError
      else
        let input_text = fields ! 0;
            target_text = fields ! 1;
            target_text = [TAB] @ target_text @ [NEWLINE]
        in Inr \<lparr>input_texts = input_texts st @ [input_text],
                target_texts = target_texts st @ [target_text],
                input_charset = add_chars input_text (input_charset st),
                target_charset = add_chars target_text (target_charset st)\<rparr>)"

fun read_lines :: "ustring list \<Rightarrow> corpus \<Rightarrow> error + corpus" where
  "read_lines [] st = Inr st"
| "read_lines (line # rest) st =
     (case read_line line st of
        Inl e \<Rightarrow> Inl e
      | Inr st' \<Rightarrow> read_lines rest st')"

text \<open>
  \<open>lines = f.read().split("\n")\<close> and the loop over
  \<open>lines[: min(num_samples, len(lines) - 1)]\<close>; the argument is the decoded content
  of the data file.
\<close>

definition processed_lines :: "ustring \<Rightarrow> ustring list" where
  "processed_lines content =
     (let lines = str_split NEWLINE content
      in take (min num_samples (length lines - 1)) lines)"

definition load_data :: "ustring \<Rightarrow> error + corpus" where
  "load_data content = read_lines (processed_lines content) empty_corpus"

text \<open>
  The first two fields of a line, as the loop body binds them: the input text, and the
  target text between the start marker and the end marker.
\<close>

definition line_input :: "ustring \<Rightarrow> ustring" where
  "line_input line = str_split TAB line ! 0"

definition line_target :: "ustring \<Rightarrow> ustring" where
  "line_target line = [TAB] @ str_split TAB line ! 1 @ [NEWLINE]"

section \<open>Vocabularies\<close>

text \<open>\<open>max(xs)\<close> raises \<open>ValueError\<close> on an empty list.\<close>

definition py_max :: "nat list \<Rightarrow> error + nat" where
  "py_max xs = (case xs of [] \<Rightarrow> Inl ValueError | x # rest \<Rightarrow> Inr (fold max rest x))"

text \<open>
  A Python dictionary is an association list in insertion order. \<open>dict(pairs)\<close>
  inserts the pairs from left to right; a key that is already present keeps its place and
  takes the new value. A missing key raises \<open>KeyError\<close>.
\<close>

definition dict :: "('k \<times> 'v) list \<Rightarrow> ('k \<times> 'v) list" where
  "dict kvs = fold (\<lambda>(k, v) d. AList.update k v d) kvs []"

definition lookup :: "('k \<times> 'v) list \<Rightarrow> 'k \<Rightarrow> error + 'v" where
  "lookup d k = (case map_of d k of None \<Rightarrow> Inl KeyError | Some v \<Rightarrow> Inr v)"

text \<open>The globals that the rest of the data preparation cell binds before the tensors.\<close>

record vocab =
  input_characters :: "uchar list"
  target_characters :: "uchar list"
  num_encoder_tokens :: nat
  num_decoder_tokens :: nat
  max_encoder_seq_length :: nat
  max_decoder_seq_length :: nat
  input_token_index :: "(uchar \<times> nat) list"
  target_token_index :: "(uchar \<times> nat) list"

definition build_vocab :: "corpus \<Rightarrow> error + vocab" where
  "build_vocab c =
     (let in_chars = sorted_list_of_set (input_charset c);
          tg_chars = sorted_list_of_set (target_charset c)
      in and_then (py_max (map length (input_texts c))) (\<lambda>max_enc.
         and_then (py_max (map length (target_texts c))) (\<lambda>max_dec.
         Inr \<lparr>input_characters = in_chars,
              target_characters = tg_chars,
              num_encoder_tokens = length in_chars,
              num_decoder_tokens = length tg_chars,
              max_encoder_seq_length = max_enc,
              max_decoder_seq_length = max_dec,
              input_token_index = dict (map (\<lambda>(i, char). (char, i)) (enumerate 0 in_chars)),
              target_token_index = dict (map (\<lambda>(i, char). (char, i)) (enumerate 0 tg_chars))\<rparr>)))"

section \<open>One-hot tensors\<close>

text \<open>
  A three-axis \<open>float32\<close> array is its shape together with its elements, indexed by
  (example, timestep, token). Only the elements inside the shape are meaningful. The
  notebook stores nothing but \<open>0.0\<close> and \<open>1.0\<close>.
\<close>

record tensor =
  shape :: "nat \<times> nat \<times> nat"
  el :: "nat \<times> nat \<times> nat \<Rightarrow> real"

definition zeros :: "nat \<times> nat \<times> nat \<Rightarrow> tensor" where
  "zeros sh = \<lparr>shape = sh, el = (\<lambda>_. 0)\<rparr>"

text \<open>\<open>a[i, t, k] = v\<close>: an integer index outside its axis raises \<open>IndexError\<close>.\<close>

definition assign :: "tensor \<Rightarrow> nat \<Rightarrow> nat \<Rightarrow> nat \<Rightarrow> real \<Rightarrow> error + tensor" where
  "assign a i t k v =
     (case shape a of (n, m, w) \<Rightarrow>
        if i < n \<and> t < m \<and> k < w then Inr (a\<lparr>el := (el a)((i, t, k) := v)\<rparr>)
        else Inl IndexError)"

text \<open>
  \<open>a[i, t:, k] = v\<close>: the slice is clipped to the axis, the two integer indices
  are checked.
\<close>

definition assign_from :: "tensor \<Rightarrow> nat \<Rightarrow> nat \<Rightarrow> nat \<Rightarrow> real \<Rightarrow> error + tensor" where
  "assign_from a i t k v =
     (case shape a of (n, m, w) \<Rightarrow>
        if i < n \<and> k < w
        then Inr (a\<lparr>el := (\<lambda>(i', t', k').
                    if i' = i \<and> t \<le> t' \<and> t' < m \<and> k' = k then v else el a (i', t', k'))\<rparr>)
        else Inl IndexError)"

text \<open>The vector \<open>a[i, t]\<close> along the token axis.\<close>

definition row :: "tensor \<Rightarrow> nat \<Rightarrow> nat \<Rightarrow> real list" where
  "row a i t = (case shape a of (n, m, w) \<Rightarrow> map (\<lambda>k. el a (i, t, k)) [0..<w])"

text \<open>A vector is one-hot at \<open>k\<close>: the entry \<open>k\<close> exists and is 1, every other entry is 0.\<close>

definition one_hot_at :: "real list \<Rightarrow> nat \<Rightarrow> bool" where
  "one_hot_at v k \<longleftrightarrow> k < length v \<and> v = (replicate (length v) 0)[k := 1]"

section \<open>Vectorising the texts\<close>

text \<open>
  The three arrays, and the loop variable \<open>t\<close>, which is read after each inner loop
  and keeps its last value when an inner loop runs over an empty text (\<open>None\<close>: not
  yet bound).
\<close>

record tensors =
  encoder_input_data :: tensor
  decoder_input_data :: tensor
  decoder_target_data :: tensor
  loop_t :: "nat option"

text \<open>\<open>for t, char in enumerate(input_text): encoder_input_data[i, t, input_token_index[char]] = 1.0\<close>\<close>

fun encode_input_text :: "vocab \<Rightarrow> nat \<Rightarrow> (nat \<times> uchar) list \<Rightarrow> tensors \<Rightarrow> error + tensors" where
  "encode_input_text g i [] d = Inr d"
| "encode_input_text g i ((t, char) # rest) d =
     and_then (lookup (input_token_index g) char) (\<lambda>k.
     and_then (assign (encoder_input_data d) i t k 1) (\<lambda>a.
     encode_input_text g i rest (d\<lparr>encoder_input_data := a, loop_t := Some t\<rparr>)))"

text \<open>
  The loop over \<open>enumerate(target_text)\<close>: the decoder input at \<open>t\<close> and, from the
  second character on, the decoder target at \<open>t - 1\<close>.
\<close>

fun encode_target_text :: "vocab \<Rightarrow> nat \<Rightarrow> (nat \<times> uchar) list \<Rightarrow> tensors \<Rightarrow> error + tensors" where
  "encode_target_text g i [] d = Inr d"
| "encode_target_text g i ((t, char) # rest) d =
     and_then (lookup (target_token_index g) char) (\<lambda>k.
     and_then (assign (decoder_input_data d) i t k 1) (\<lambda>a.
     and_then (if t > 0
               then and_then (lookup (target_token_index g) char) (\<lambda>k'.
                    assign (decoder_target_data d) i (t - 1) k' 1)
               else Inr (decoder_target_data d)) (\<lambda>b.
     encode_target_text g i rest
       (d\<lparr>decoder_input_data := a, decoder_target_data := b, loop_t := Some t\<rparr>))))"

text \<open>
  The body of the outer loop for example \<open>i\<close>. Reading \<open>t\<close> while it is unbound
  raises \<open>NameError\<close>; the subscripts are evaluated from left to right, so \<open>t\<close> is
  read before the padding character is looked up.
\<close>

definition vectorize_example :: "vocab \<Rightarrow> nat \<Rightarrow> ustring \<times> ustring \<Rightarrow> tensors \<Rightarrow> error + tensors" where
  "vectorize_example g i p d0 =
     (case p of (input_text, target_text) \<Rightarrow>
      and_then (encode_input_text g i (enumerate 0 input_text) d0) (\<lambda>d1.
      and_then (case loop_t d1 of
                  None \<Rightarrow> Inl NameError
                | Some t \<Rightarrow>
                    and_then (lookup (input_token_index g) SPACE) (\<lambda>k.
                    and_then (assign_from (encoder_input_data d1) i (t + 1) k 1) (\<lambda>a.
                    Inr (d1\<lparr>encoder_input_data := a\<rparr>)))) (\<lambda>d2.
      and_then (encode_target_text g i (enumerate 0 target_text) d2) (\<lambda>d3.
      case loop_t d3 of
        None \<Rightarrow> Inl NameError
      | Some t \<Rightarrow>
          and_then (lookup (target_token_index g) SPACE) (\<lambda>k.
          and_then (assign_from (decoder_input_data d3) i (t + 1) k 1) (\<lambda>a.
          and_then (lookup (target_token_index g) SPACE) (\<lambda>k'.
          and_then (assign_from (decoder_target_data d3) i t k' 1) (\<lambda>b.
          Inr (d3\<lparr>decoder_input_data := a, decoder_target_data := b\<rparr>)))))))))"

fun vectorize_loop :: "vocab \<Rightarrow> (nat \<times> ustring \<times> ustring) list \<Rightarrow> tensors \<Rightarrow> error + tensors" where
  "vectorize_loop g [] d = Inr d"
| "vectorize_loop g ((i, p) # rest) d =
     and_then (vectorize_example g i p d) (\<lambda>d'. vectorize_loop g rest d')"

definition vectorize :: "corpus \<Rightarrow> vocab \<Rightarrow> error + tensors" where
  "vectorize c g =
     (let n = length (input_texts c)
      in vectorize_loop g (enumerate 0 (zip (input_texts c) (target_texts c)))
           \<lparr>encoder_input_data = zeros (n, max_encoder_seq_length g, num_encoder_tokens g),
            decoder_input_data = zeros (n, max_decoder_seq_length g, num_decoder_tokens g),
            decoder_target_data = zeros (n, max_decoder_seq_length g, num_decoder_tokens g),
            loop_t = None\<rparr>)"

text \<open>The whole data preparation cell, from the content of the data file.\<close>

definition prepare :: "ustring \<Rightarrow> error + corpus \<times> vocab \<times> tensors" where
  "prepare content =
     and_then (load_data content) (\<lambda>c.
     and_then (build_vocab c) (\<lambda>g.
     and_then (vectorize c g) (\<lambda>d. Inr (c, g, d))))"

section \<open>The trained layers\<close>

text \<open>
  The weights of the layers are the result of training and are not known: each layer is
  a parameter. An LSTM cell maps the input vector of one timestep and the state
  \<open>(h, c)\<close> to the next state; a dense layer maps a vector to a vector. The batch axis
  is left out: the notebook decodes one sequence at a time. Vectors hold real numbers:
  the rounding of \<open>float32\<close> arithmetic happens inside the layers, and a
  distribution is compared entry by entry, without \<open>NaN\<close>.
\<close>

type_synonym vec = "real list"
type_synonym lstm_cell = "vec \<Rightarrow> vec \<times> vec \<Rightarrow> vec \<times> vec"

record layers =
  encoder :: lstm_cell
  decoder_lstm :: lstm_cell
  decoder_dense :: "vec \<Rightarrow> vec"

text \<open>
  \<open>keras.layers.LSTM\<close> is a recurrent layer: it applies its cell to the timesteps in
  order and hands the state on; its output at a timestep is the new \<open>h\<close>. The result
  is the output sequence and the last state (\<open>return_sequences\<close> and
  \<open>return_state\<close>).
\<close>

fun lstm :: "lstm_cell \<Rightarrow> vec list \<Rightarrow> vec \<times> vec \<Rightarrow> vec list \<times> vec \<times> vec" where
  "lstm cell [] s = ([], s)"
| "lstm cell (x # xs) s =
     (let s' = cell x s;
          (outputs, final) = lstm cell xs s'
      in (fst s' # outputs, final))"

text \<open>
  The encoder starts from the zero state of \<open>latent_dim\<close> units and keeps only its
  last state: \<open>encoder_states = [state_h, state_c]\<close>.
\<close>

definition encoder_states :: "layers \<Rightarrow> vec list \<Rightarrow> vec list" where
  "encoder_states m encoder_inputs =
     (case lstm (encoder m) encoder_inputs (replicate latent_dim 0, replicate latent_dim 0) of
        (encoder_outputs, state_h, state_c) \<Rightarrow> [state_h, state_c])"

text \<open>
  The training model \<open>keras.Model([encoder_inputs, decoder_inputs], decoder_outputs)\<close>:
  the decoder LSTM runs over the whole decoder input from the encoder states, and the
  dense softmax layer is applied at every timestep.
\<close>

definition model :: "layers \<Rightarrow> vec list \<Rightarrow> vec list \<Rightarrow> error + vec list" where
  "model m encoder_inputs decoder_inputs =
     (case encoder_states m encoder_inputs of
        [state_h, state_c] \<Rightarrow>
          (case lstm (decoder_lstm m) decoder_inputs (state_h, state_c) of
             (decoder_outputs, _, _) \<Rightarrow> Inr (map (decoder_dense m) decoder_outputs))
      | _ \<Rightarrow> Inl ValueError)"

section \<open>The sampling models\<close>

text \<open>\<open>encoder_model = keras.Model(encoder_inputs, encoder_states)\<close>, and its \<open>predict\<close>.\<close>

definition encoder_model :: "layers \<Rightarrow> vec list \<Rightarrow> vec list" where
  "encoder_model m input_seq = encoder_states m input_seq"

text \<open>
  \<open>decoder_model\<close> has the inputs \<open>[decoder_inputs, h, c]\<close> and the outputs
  \<open>[decoder_outputs, state_h_dec, state_c_dec]\<close>; it is called as
  \<open>decoder_model.predict([target_seq] + states_value)\<close>. A list of states that does
  not hold exactly two arrays does not match the inputs of the model.
\<close>

definition decoder_model :: "layers \<Rightarrow> vec list \<Rightarrow> vec list \<Rightarrow> error + vec list \<times> vec \<times> vec" where
  "decoder_model m decoder_inputs states_inputs =
     (case states_inputs of
        [decoder_state_input_h, decoder_state_input_c] \<Rightarrow>
          (case lstm (decoder_lstm m) decoder_inputs
                  (decoder_state_input_h, decoder_state_input_c) of
             (decoder_outputs, state_h_dec, state_c_dec) \<Rightarrow>
               Inr (map (decoder_dense m) decoder_outputs, state_h_dec, state_c_dec))
      | _ \<Rightarrow> Inl ValueError)"

definition reverse_input_char_index :: "vocab \<Rightarrow> (nat \<times> uchar) list" where
  "reverse_input_char_index g = dict (map (\<lambda>(char, i). (i, char)) (input_token_index g))"

definition reverse_target_char_index :: "vocab \<Rightarrow> (nat \<times> uchar) list" where
  "reverse_target_char_index g = dict (map (\<lambda>(char, i). (i, char)) (target_token_index g))"

section \<open>Greedy decoding\<close>

text \<open>
  \<open>np.argmax\<close> of a vector: the first index of a largest entry; \<open>ValueError\<close> on an
  empty vector.
\<close>

fun first_max :: "vec \<Rightarrow> nat" where
  "first_max [] = 0"
| "first_max [x] = 0"
| "first_max (x # y # ys) =
     (let j = first_max (y # ys) in if (y # ys) ! j \<le> x then 0 else Suc j)"

definition argmax :: "vec \<Rightarrow> error + nat" where
  "argmax v = (if v = [] then Inl ValueError else Inr (first_max v))"

text \<open>
  \<open>target_seq = np.zeros((1, 1, num_decoder_tokens)); target_seq[0, 0, k] = 1.0\<close>:
  a sequence of one timestep.
\<close>

definition single_token_seq :: "nat \<Rightarrow> nat \<Rightarrow> error + vec list" where
  "single_token_seq n k = (if k < n then Inr [(replicate n 0)[k := 1]] else Inl IndexError)"

text \<open>The local variables of \<open>decode_sequence\<close> that the sampling loop updates.\<close>

record loop_state =
  target_seq :: "vec list"
  states_value :: "vec list"
  stop_condition :: bool
  decoded_sentence :: ustring

text \<open>The statements of \<open>decode_sequence\<close> before the loop.\<close>

definition initial_state :: "vocab \<Rightarrow> layers \<Rightarrow> vec list \<Rightarrow> error + loop_state" where
  "initial_state g m input_seq =
     (let states_value = encoder_model m input_seq
      in and_then (lookup (target_token_index g) TAB) (\<lambda>k.
         and_then (single_token_seq (num_decoder_tokens g) k) (\<lambda>target_seq.
         Inr \<lparr>target_seq = target_seq, states_value = states_value,
              stop_condition = False, decoded_sentence = []\<rparr>)))"

text \<open>
  The body of the sampling loop. \<open>output_tokens[0, -1, :]\<close> is the distribution at the
  last timestep of the decoder output.
\<close>

definition loop_body :: "vocab \<Rightarrow> layers \<Rightarrow> loop_state \<Rightarrow> error + loop_state" where
  "loop_body g m st =
     and_then (decoder_model m (target_seq st) (states_value st)) (\<lambda>(output_tokens, h, c).
     and_then (if output_tokens = [] then Inl IndexError else argmax (last output_tokens))
       (\<lambda>sampled_token_index.
     and_then (lookup (reverse_target_char_index g) sampled_token_index) (\<lambda>sampled_char.
     let decoded_sentence = decoded_sentence st @ [sampled_char];
         stop_condition =
           (if sampled_char = NEWLINE \<or> length decoded_sentence > max_decoder_seq_length g
            then True else stop_condition st)
     in and_then (single_token_seq (num_decoder_tokens g) sampled_token_index) (\<lambda>target_seq.
        Inr \<lparr>target_seq = target_seq, states_value = [h, c],
             stop_condition = stop_condition, decoded_sentence = decoded_sentence\<rparr>))))"

text \<open>\<open>while not stop_condition: ...\<close>\<close>

function sampling_loop :: "vocab \<Rightarrow> layers \<Rightarrow> loop_state \<Rightarrow> error + loop_state" where
  "sampling_loop g m st =
     (if \<not> stop_condition st
      then (case loop_body g m st of
              Inl e \<Rightarrow> Inl e
            | Inr st' \<Rightarrow> sampling_loop g m st')
      else Inr st)"
  by pat_completeness auto
termination
proof (relation "measure (\<lambda>(g, m, st).
    if stop_condition st then 0
    else Suc (Suc (max_decoder_seq_length g) - length (decoded_sentence st)))")
  show "wf (measure (\<lambda>(g, m, st).
    if stop_condition st then 0
    else Suc (Suc (max_decoder_seq_length g) - length (decoded_sentence st))))"
    by simp
next
  fix g :: vocab and m :: layers and st st' :: loop_state
  assume "\<not> stop_condition st" and "loop_body g m st = Inr st'"
  then show "((g, m, st'), (g, m, st)) \<in> measure (\<lambda>(g, m, st).
    if stop_condition st then 0
    else Suc (Suc (max_decoder_seq_length g) - length (decoded_sentence st)))"
    by (auto simp: loop_body_def and_then_def Let_def
        split: sum.splits prod.splits if_splits)
qed

definition decode_sequence :: "vocab \<Rightarrow> layers \<Rightarrow> vec list \<Rightarrow> error + ustring" where
  "decode_sequence g m input_seq =
     and_then (initial_state g m input_seq) (\<lambda>st0.
     and_then (sampling_loop g m st0) (\<lambda>st.
     Inr (decoded_sentence st)))"

section \<open>Greedy decoding as the specification describes it\<close>

text \<open>
  The description of the decoder in the specification, written step by step without the
  loop: the arg-max of a distribution, the token and the state after \<open>k\<close> decoder
  steps, the character appended at step \<open>k\<close>, the first step at which decoding stops,
  and the decoded string.
\<close>

definition greedy_choice :: "vec \<Rightarrow> nat" where
  "greedy_choice v = (LEAST i. i < length v \<and> (\<forall>j<length v. v ! j \<le> v ! i))"

definition one_hot :: "nat \<Rightarrow> nat \<Rightarrow> vec" where
  "one_hot n k = (replicate n 0)[k := 1]"

definition start_token :: "vocab \<Rightarrow> nat" where
  "start_token g = (THE k. k < length (target_characters g) \<and> target_characters g ! k = TAB)"

fun greedy_run :: "vocab \<Rightarrow> layers \<Rightarrow> vec list \<Rightarrow> nat \<Rightarrow> nat \<times> vec \<times> vec" where
  "greedy_run g m input_seq 0 =
     (start_token g,
      snd (lstm (encoder m) input_seq (replicate latent_dim 0, replicate latent_dim 0)))"
| "greedy_run g m input_seq (Suc k) =
     (case greedy_run g m input_seq k of
        (token, state) \<Rightarrow>
          (let state' = decoder_lstm m (one_hot (num_decoder_tokens g) token) state
           in (greedy_choice (decoder_dense m (fst state')), state')))"

definition greedy_char :: "vocab \<Rightarrow> layers \<Rightarrow> vec list \<Rightarrow> nat \<Rightarrow> uchar" where
  "greedy_char g m input_seq k = target_characters g ! fst (greedy_run g m input_seq k)"

definition greedy_stop :: "vocab \<Rightarrow> layers \<Rightarrow> vec list \<Rightarrow> nat \<Rightarrow> bool" where
  "greedy_stop g m input_seq k \<longleftrightarrow>
     greedy_char g m input_seq k = NEWLINE \<or> k > max_decoder_seq_length g"

definition greedy_steps :: "vocab \<Rightarrow> layers \<Rightarrow> vec list \<Rightarrow> nat" where
  "greedy_steps g m input_seq = (LEAST k. 0 < k \<and> greedy_stop g m input_seq k)"

definition greedy_decode :: "vocab \<Rightarrow> layers \<Rightarrow> vec list \<Rightarrow> ustring" where
  "greedy_decode g m input_seq =
     map (greedy_char g m input_seq) [1..<Suc (greedy_steps g m input_seq)]"

text \<open>
  Running the sampling decoder one timestep at a time over a given sequence of decoder
  inputs, carrying the states forward, and collecting the distribution of each step.
\<close>

fun stepwise_decoder :: "layers \<Rightarrow> vec list \<Rightarrow> vec list \<Rightarrow> error + vec list" where
  "stepwise_decoder m states [] = Inr []"
| "stepwise_decoder m states (x # xs) =
     and_then (decoder_model m [x] states) (\<lambda>(output_tokens, h, c).
     and_then (stepwise_decoder m [h, c] xs) (\<lambda>rest.
     Inr (last output_tokens # rest)))"

section \<open>Auxiliary notions for the proofs\<close>

text \<open>What a successful run of the loading loop establishes about its result.\<close>

definition well_loaded :: "corpus \<Rightarrow> bool" where
  "well_loaded c \<longleftrightarrow>
     length (input_texts c) = length (target_texts c) \<and>
     input_charset c = \<Union> (set ` set (input_texts c)) \<and>
     target_charset c = \<Union> (set ` set (target_texts c)) \<and>
     (\<forall>y \<in> set (target_texts c). \<exists>s. y = [TAB] @ s @ [NEWLINE])"

text \<open>What a successful construction of the vocabularies establishes.\<close>

definition well_indexed :: "corpus \<Rightarrow> vocab \<Rightarrow> bool" where
  "well_indexed c g \<longleftrightarrow>
     input_texts c \<noteq> [] \<and>
     input_characters g = sorted_list_of_set (input_charset c) \<and>
     target_characters g = sorted_list_of_set (target_charset c) \<and>
     num_encoder_tokens g = length (input_characters g) \<and>
     num_decoder_tokens g = length (target_characters g) \<and>
     max_encoder_seq_length g = Max (set (map length (input_texts c))) \<and>
     max_decoder_seq_length g = Max (set (map length (target_texts c))) \<and>
     input_token_index g = zip (input_characters g) [0..<length (input_characters g)] \<and>
     target_token_index g = zip (target_characters g) [0..<length (target_characters g)]"

text \<open>
  Two states of the vectorising loop agree on the slices of example \<open>i\<close>, and
  on the shapes of the arrays.
\<close>

definition same_example :: "nat \<Rightarrow> tensors \<Rightarrow> tensors \<Rightarrow> bool" where
  "same_example i d d' \<longleftrightarrow>
     (\<forall>t k. el (encoder_input_data d') (i, t, k) = el (encoder_input_data d) (i, t, k) \<and>
            el (decoder_input_data d') (i, t, k) = el (decoder_input_data d) (i, t, k) \<and>
            el (decoder_target_data d') (i, t, k) = el (decoder_target_data d) (i, t, k))"

definition same_shapes :: "tensors \<Rightarrow> tensors \<Rightarrow> bool" where
  "same_shapes d d' \<longleftrightarrow>
     shape (encoder_input_data d') = shape (encoder_input_data d) \<and>
     shape (decoder_input_data d') = shape (decoder_input_data d) \<and>
     shape (decoder_target_data d') = shape (decoder_target_data d)"

text \<open>
  A text fits an array: it is no longer than the time axis, and each of its characters has
  an index inside the token axis.
\<close>

definition encodable :: "(uchar \<times> nat) list \<Rightarrow> nat \<Rightarrow> nat \<Rightarrow> ustring \<Rightarrow> bool" where
  "encodable idx m w s \<longleftrightarrow>
     length s \<le> m \<and> (\<forall>ch \<in> set s. \<exists>k<w. map_of idx ch = Some k)"

text \<open>The character at timestep \<open>t\<close> of a text that is padded with spaces.\<close>

definition padded :: "ustring \<Rightarrow> nat \<Rightarrow> uchar" where
  "padded s t = (if t < length s then s ! t else SPACE)"

section \<open>A small data file\<close>

text \<open>
  The two lines \<open>a \<close>, \<open>b \<close>, \<open>x\<close> and \<open>c\<close>, \<open>d\<close>, \<open>y\<close>
  (fields separated by tabs), what loading makes of them, and the vocabularies.
\<close>

definition demo_content :: ustring where
  "demo_content = [97, 32, 9, 98, 32, 9, 120, 10, 99, 9, 100, 9, 121, 10]"

definition demo_corpus :: corpus where
  "demo_corpus =
     \<lparr>input_texts = [[97, 32], [99]],
      target_texts = [[9, 98, 32, 10], [9, 100, 10]],
      input_charset = {32, 97, 99},
      target_charset = {9, 10, 32, 98, 100}\<rparr>"

definition demo_vocab :: vocab where
  "demo_vocab =
     \<lparr>input_characters = [32, 97, 99],
      target_characters = [9, 10, 32, 98, 100],
      num_encoder_tokens = 3,
      num_decoder_tokens = 5,
      max_encoder_seq_length = 2,
      max_decoder_seq_length = 4,
      input_token_index = [(32, 0), (97, 1), (99, 2)],
      target_token_index = [(9, 0), (10, 1), (32, 2), (98, 3), (100, 4)]\<rparr>"

text \<open>The state of the sampling loop after \<open>k\<close> runs of its body.\<close>

fun run_body :: "vocab \<Rightarrow> layers \<Rightarrow> nat \<Rightarrow> loop_state \<Rightarrow> error + loop_state" where
  "run_body g m 0 st = Inr st"
| "run_body g m (Suc k) st = and_then (loop_body g m st) (run_body g m k)"

text \<open>
  The state of the sampling loop that corresponds to \<open>k\<close> steps of the step-by-step
  description.
\<close>

definition greedy_state :: "vocab \<Rightarrow> layers \<Rightarrow> vec list \<Rightarrow> nat \<Rightarrow> loop_state" where
  "greedy_state g m input_seq k =
     \<lparr>target_seq = [one_hot (num_decoder_tokens g) (fst (greedy_run g m input_seq k))],
      states_value = [fst (snd (greedy_run g m input_seq k)),
                      snd (snd (greedy_run g m input_seq k))],
      stop_condition = (0 < k \<and> greedy_stop g m input_seq k),
      decoded_sentence = map (greedy_char g m input_seq) [1..<Suc k]\<rparr>"

text \<open>
  An LSTM cell with \<open>n\<close> units: from a state of two vectors of length \<open>n\<close> it
  returns a state of two vectors of length \<open>n\<close>.
\<close>

definition lstm_units :: "lstm_cell \<Rightarrow> nat \<Rightarrow> bool" where
  "lstm_units cell n \<longleftrightarrow>
     (\<forall>x h c. length h = n \<and> length c = n \<longrightarrow>
        length (fst (cell x (h, c))) = n \<and> length (snd (cell x (h, c))) = n)"

text \<open>A dense layer with \<open>n\<close> units returns vectors of length \<open>n\<close>.\<close>

definition dense_units :: "layers \<Rightarrow> nat \<Rightarrow> bool" where
  "dense_units m n \<longleftrightarrow> (\<forall>v. length (decoder_dense m v) = n)"

text \<open>
  Layers for the small data file. The first decoder answers the start token with
  \<open>b\<close> and \<open>b\<close> with the end marker; the second answers every input with
  \<open>b\<close>. The input sequence is the slice of \<open>encoder_input_data\<close> for the first
  example.
\<close>

definition demo_layers :: layers where
  "demo_layers =
     \<lparr>encoder = (\<lambda>x s. s),
      decoder_lstm = (\<lambda>x (h, c). (x, c)),
      decoder_dense = (\<lambda>h. map (\<lambda>p. (2 * p + 1) / 7) (rotate 2 (take 5 (h @ replicate 5 0))))\<rparr>"

definition stuck_layers :: layers where
  "stuck_layers =
     \<lparr>encoder = (\<lambda>x s. s),
      decoder_lstm = (\<lambda>x s. s),
      decoder_dense = (\<lambda>h. [1 / 10, 1 / 10, 1 / 10, 6 / 10, 1 / 10])\<rparr>"

text \<open>
  Layers of \<open>latent_dim\<close> units whose cells change the state at every timestep:
  the encoder adds 1 to every entry of \<open>h\<close> and 2 to every entry of \<open>c\<close>, the
  decoder adds 1 to both. The dense layer answers with \<open>b\<close> while the first entry
  of \<open>h\<close> is below 4, and with the end marker from then on.
\<close>

definition counting_layers :: layers where
  "counting_layers =
     \<lparr>encoder = (\<lambda>x (h, c). (map (\<lambda>v. v + 1) h, map (\<lambda>v. v + 2) c)),
      decoder_lstm = (\<lambda>x (h, c). (map (\<lambda>v. v + 1) h, map (\<lambda>v. v + 1) c)),
      decoder_dense = (\<lambda>h. if 4 \<le> hd (h @ [0])
                            then [1 / 10, 6 / 10, 1 / 10, 1 / 10, 1 / 10]
                            else [1 / 10, 1 / 10, 1 / 10, 6 / 10, 1 / 10])\<rparr>"

definition demo_input_seq :: "vec list" where
  "demo_input_seq = [[0, 1, 0], [1, 0, 0]]"

section \<open>Errors and dictionaries\<close>


lemma and_then_Inr_iff: "and_then r f = Inr v \<longleftrightarrow> (\<exists>u. r = Inr u \<and> f u = Inr v)"
  by (cases r) (simp_all add: and_then_def)

lemma and_then_Inr [simp]: "and_then (Inr u) f = f u"
  by (simp add: and_then_def)

lemma and_then_Inl [simp]: "and_then (Inl e) f = Inl e"
  by (simp add: and_then_def)

lemma lookup_Inr_iff: "lookup d k = Inr v \<longleftrightarrow> map_of d k = Some v"
  by (simp add: lookup_def split: option.splits)

subsection \<open>Dictionaries\<close>

lemma update_fresh: "k \<notin> fst ` set al \<Longrightarrow> AList.update k v al = al @ [(k, v)]"
  by (induction al) auto

lemma fold_update_distinct:
  "distinct (map fst kvs) \<Longrightarrow> fst ` set acc \<inter> fst ` set kvs = {} \<Longrightarrow>
   fold (\<lambda>(k, v) d. AList.update k v d) kvs acc = acc @ kvs"
proof (induction kvs arbitrary: acc)
  case Nil
  then show ?case by simp
next
  case (Cons kv kvs)
  obtain k v where kv: "kv = (k, v)" by (cases kv)
  from Cons.prems have fresh: "k \<notin> fst ` set acc" by (auto simp: kv)
  from Cons.prems have "distinct (map fst kvs)"
    and "fst ` set (acc @ [(k, v)]) \<inter> fst ` set kvs = {}"
    by (auto simp: kv)
  from Cons.IH [OF this] show ?case by (simp add: kv update_fresh [OF fresh])
qed

lemma dict_distinct: "distinct (map fst kvs) \<Longrightarrow> dict kvs = kvs"
  using fold_update_distinct [of kvs "[]"] by (simp add: dict_def)


lemma enumerate_swap:
  "map (\<lambda>(i, char). (char, i)) (enumerate 0 chars) = zip chars [0..<length chars]"
  by (simp add: enumerate_eq_zip zip_commute [of chars] map_prod_def [symmetric])

lemma map_of_index:
  assumes "distinct chars"
  shows "map_of (zip chars [0..<length chars]) ch = Some k \<longleftrightarrow> k < length chars \<and> chars ! k = ch"
proof -
  have "distinct (map fst (zip chars [0..<length chars]))" using assms by simp
  then have "map_of (zip chars [0..<length chars]) ch = Some k
      \<longleftrightarrow> (ch, k) \<in> set (zip chars [0..<length chars])"
    by (rule map_of_eq_Some_iff)
  also have "\<dots> \<longleftrightarrow> k < length chars \<and> chars ! k = ch"
    by (auto simp: in_set_zip)
  finally show ?thesis .
qed

lemma token_index_eq:
  "distinct chars \<Longrightarrow>
   dict (map (\<lambda>(i, char). (char, i)) (enumerate 0 chars)) = zip chars [0..<length chars]"
  by (simp add: enumerate_swap dict_distinct)

section \<open>Properties of the loader\<close>

lemma add_chars_eq: "add_chars s cs = cs \<union> set s"
  unfolding add_chars_def by (induction s arbitrary: cs) auto

lemma str_split_nonempty: "str_split sep s \<noteq> []"
  by (induction s) (auto split: list.splits)

lemma length_str_split: "length (str_split sep s) = Suc (count_list s sep)"
  by (induction s) (auto split: list.splits simp: str_split_nonempty)

lemma read_line_ok:
  "length (str_split TAB line) = 3 \<Longrightarrow>
   read_line line st =
     Inr \<lparr>input_texts = input_texts st @ [line_input line],
          target_texts = target_texts st @ [line_target line],
          input_charset = input_charset st \<union> set (line_input line),
          target_charset = target_charset st \<union> set (line_target line)\<rparr>"
  by (simp add: read_line_def Let_def add_chars_eq line_input_def line_target_def)

lemma read_line_raises:
  "length (str_split TAB line) \<noteq> 3 \<Longrightarrow> read_line line st = Inl ValueError"
  by (simp add: read_line_def)

lemma read_lines_ok:
  "\<forall>line \<in> set ls. length (str_split TAB line) = 3 \<Longrightarrow>
   read_lines ls st =
     Inr \<lparr>input_texts = input_texts st @ map line_input ls,
          target_texts = target_texts st @ map line_target ls,
          input_charset = input_charset st \<union> \<Union> (set ` set (map line_input ls)),
          target_charset = target_charset st \<union> \<Union> (set ` set (map line_target ls))\<rparr>"
proof (induction ls arbitrary: st)
  case Nil
  then show ?case by simp
next
  case (Cons line ls)
  then show ?case by (simp add: read_line_ok Un_assoc)
qed

lemma read_lines_raises:
  "\<exists>line \<in> set ls. length (str_split TAB line) \<noteq> 3 \<Longrightarrow> read_lines ls st = Inl ValueError"
proof (induction ls arbitrary: st)
  case Nil
  then show ?case by simp
next
  case (Cons line ls)
  show ?case
  proof (cases "length (str_split TAB line) = 3")
    case True
    with Cons show ?thesis by (simp add: read_line_ok)
  next
    case False
    then show ?thesis by (simp add: read_line_raises)
  qed
qed

subsection \<open>What loading establishes\<close>



lemma load_data_well_loaded:
  assumes "load_data content = Inr c"
  shows "well_loaded c"
proof -
  let ?ls = "processed_lines content"
  have ok: "\<forall>line \<in> set ?ls. length (str_split TAB line) = 3"
  proof (rule ccontr)
    assume "\<not> ?thesis"
    then have "\<exists>line \<in> set ?ls. length (str_split TAB line) \<noteq> 3" by blast
    from read_lines_raises [OF this, of empty_corpus] assms show False
      by (simp add: load_data_def)
  qed
  from read_lines_ok [OF ok, of empty_corpus] assms
  have c: "c = \<lparr>input_texts = map line_input ?ls, target_texts = map line_target ?ls,
      input_charset = \<Union> (set ` set (map line_input ?ls)),
      target_charset = \<Union> (set ` set (map line_target ?ls))\<rparr>"
    by (simp add: load_data_def empty_corpus_def)
  show ?thesis
    unfolding well_loaded_def by (subst (1 2 3 4 5 6 7) c) (auto simp: line_target_def)
qed

lemma well_loaded_finite:
  assumes "well_loaded c"
  shows "finite (input_charset c)" and "finite (target_charset c)"
  using assms by (auto simp: well_loaded_def)

lemma well_loaded_target:
  assumes "well_loaded c" and "y \<in> set (target_texts c)"
  shows "2 \<le> length y" and "y ! 0 = TAB" and "last y = NEWLINE"
  using assms by (auto simp: well_loaded_def)

subsection \<open>What building the vocabulary establishes\<close>

lemma py_max_Inr:
  assumes "py_max xs = Inr m"
  shows "xs \<noteq> []" and "m = Max (set xs)"
  using assms Max.set_eq_fold [of "hd xs" "tl xs"]
  by (auto simp: py_max_def split: list.splits)



lemma build_vocab_well_indexed:
  assumes "build_vocab c = Inr g"
  shows "well_indexed c g"
proof -
  from assms obtain me md where
    me: "py_max (map length (input_texts c)) = Inr me" and
    md: "py_max (map length (target_texts c)) = Inr md" and
    g: "g = \<lparr>input_characters = sorted_list_of_set (input_charset c),
              target_characters = sorted_list_of_set (target_charset c),
              num_encoder_tokens = length (sorted_list_of_set (input_charset c)),
              num_decoder_tokens = length (sorted_list_of_set (target_charset c)),
              max_encoder_seq_length = me,
              max_decoder_seq_length = md,
              input_token_index = dict (map (\<lambda>(i, char). (char, i))
                 (enumerate 0 (sorted_list_of_set (input_charset c)))),
              target_token_index = dict (map (\<lambda>(i, char). (char, i))
                 (enumerate 0 (sorted_list_of_set (target_charset c))))\<rparr>"
    by (auto simp: build_vocab_def Let_def and_then_Inr_iff)
  from py_max_Inr [OF me] py_max_Inr [OF md] show ?thesis
    unfolding well_indexed_def by (subst (1 2 3 4 5 6 7 8 9 10 11 12 13 14) g) (simp add: token_index_eq)
qed

section \<open>Properties of the vectorising loops\<close>

lemma assign_Inr:
  assumes "assign a i t k v = Inr a'"
  shows "shape a' = shape a" and "el a' = (el a)((i, t, k) := v)"
    and "i < fst (shape a)" and "t < fst (snd (shape a))" and "k < snd (snd (shape a))"
  using assms by (auto simp: assign_def split: prod.splits if_splits)

lemma assign_from_Inr:
  assumes "assign_from a i t k v = Inr a'"
  shows "shape a' = shape a"
    and "el a' (i', t', k') =
           (if i' = i \<and> t \<le> t' \<and> t' < fst (snd (shape a)) \<and> k' = k then v else el a (i', t', k'))"
    and "i < fst (shape a)" and "k < snd (snd (shape a))"
  using assms by (auto simp: assign_from_def split: prod.splits if_splits)

lemma encode_input_text_Inr:
  assumes "encode_input_text g i ps d = Inr d'"
  shows "shape (encoder_input_data d') = shape (encoder_input_data d)
    \<and> decoder_input_data d' = decoder_input_data d
    \<and> decoder_target_data d' = decoder_target_data d
    \<and> loop_t d' = (if ps = [] then loop_t d else Some (fst (last ps)))
    \<and> (\<forall>i' t' k'. el (encoder_input_data d') (i', t', k') =
          (if i' = i \<and> (\<exists>ch. (t', ch) \<in> set ps \<and> map_of (input_token_index g) ch = Some k')
           then 1 else el (encoder_input_data d) (i', t', k')))"
  using assms
proof (induction ps arbitrary: d)
  case Nil
  then show ?case by simp
next
  case (Cons p ps)
  obtain t ch where p: "p = (t, ch)" by (cases p)
  from Cons.prems obtain k a where
    k: "map_of (input_token_index g) ch = Some k" and
    a: "assign (encoder_input_data d) i t k 1 = Inr a" and
    rest: "encode_input_text g i ps (d\<lparr>encoder_input_data := a, loop_t := Some t\<rparr>) = Inr d'"
    by (auto simp: p and_then_Inr_iff lookup_Inr_iff)
  note IH = Cons.IH [OF rest]
  note A = assign_Inr(1,2) [OF a]
  from IH A k show ?case
    by (auto simp: p)
qed


lemma encode_target_text_Inr:
  assumes "encode_target_text g i ps d = Inr d'"
  shows "shape (decoder_input_data d') = shape (decoder_input_data d)
    \<and> shape (decoder_target_data d') = shape (decoder_target_data d)
    \<and> encoder_input_data d' = encoder_input_data d
    \<and> loop_t d' = (if ps = [] then loop_t d else Some (fst (last ps)))
    \<and> (\<forall>i' t' k'. el (decoder_input_data d') (i', t', k') =
          (if i' = i \<and> (\<exists>ch. (t', ch) \<in> set ps \<and> map_of (target_token_index g) ch = Some k')
           then 1 else el (decoder_input_data d) (i', t', k')))
    \<and> (\<forall>i' t' k'. el (decoder_target_data d') (i', t', k') =
          (if i' = i \<and> (\<exists>ch. (Suc t', ch) \<in> set ps \<and> map_of (target_token_index g) ch = Some k')
           then 1 else el (decoder_target_data d) (i', t', k')))"
  using assms
proof (induction ps arbitrary: d)
  case Nil
  then show ?case by simp
next
  case (Cons p ps)
  obtain t ch where p: "p = (t, ch)" by (cases p)
  from Cons.prems obtain k a b where
    k: "map_of (target_token_index g) ch = Some k" and
    a: "assign (decoder_input_data d) i t k 1 = Inr a" and
    b: "(if t > 0 then assign (decoder_target_data d) i (t - 1) k 1
         else Inr (decoder_target_data d)) = Inr b" and
    rest: "encode_target_text g i ps
       (d\<lparr>decoder_input_data := a, decoder_target_data := b, loop_t := Some t\<rparr>) = Inr d'"
    by (auto simp: p and_then_Inr_iff lookup_Inr_iff split: if_splits)
  note IH = Cons.IH [OF rest]
  note A = assign_Inr(1,2) [OF a]
  have B: "shape b = shape (decoder_target_data d)"
    "el b = (if t > 0 then (el (decoder_target_data d))((i, t - 1, k) := 1)
             else el (decoder_target_data d))"
    using b assign_Inr(1,2) [of "decoder_target_data d" i "t - 1" k 1 b]
    by (auto split: if_splits)
  have s1: "shape (decoder_input_data d') = shape (decoder_input_data d)"
    and s2: "shape (decoder_target_data d') = shape (decoder_target_data d)"
    and s3: "encoder_input_data d' = encoder_input_data d"
    and s4: "loop_t d' = (if p # ps = [] then loop_t d else Some (fst (last (p # ps))))"
    using IH A B(1) by (simp_all add: p)
  have s5: "el (decoder_input_data d') (i', t', k') =
          (if i' = i \<and> (\<exists>ch. (t', ch) \<in> set (p # ps) \<and> map_of (target_token_index g) ch = Some k')
           then 1 else el (decoder_input_data d) (i', t', k'))" for i' t' k'
    using IH A k by (auto simp: p)
  have s6: "el (decoder_target_data d') (i', t', k') =
          (if i' = i \<and> (\<exists>ch. (Suc t', ch) \<in> set (p # ps) \<and> map_of (target_token_index g) ch = Some k')
           then 1 else el (decoder_target_data d) (i', t', k'))" for i' t' k'
    using IH B(2) k by (auto simp: p)
  from s1 s2 s3 s4 s5 s6 show ?case by blast
qed

lemma in_set_enumerate0: "(t, ch) \<in> set (enumerate 0 s) \<longleftrightarrow> t < length s \<and> s ! t = ch"
  by (auto simp: in_set_enumerate_eq)

lemma last_enumerate0: "s \<noteq> [] \<Longrightarrow> fst (last (enumerate 0 s)) = length s - 1"
  by (simp add: last_conv_nth enumerate_eq_zip)

lemma enumerate0_Nil_iff: "enumerate 0 s = [] \<longleftrightarrow> s = []"
  by (cases s) simp_all

text \<open>The effect of the body of the outer loop on the three arrays.\<close>

lemma vectorize_example_Inr:
  assumes "vectorize_example g i (x, y) d = Inr d'"
  shows "\<exists>tx ty ksi kst.
      (if x = [] then loop_t d = Some tx else tx = length x - 1) \<and>
      (if y = [] then ty = tx else ty = length y - 1) \<and>
      loop_t d' = Some ty \<and>
      map_of (input_token_index g) SPACE = Some ksi \<and>
      map_of (target_token_index g) SPACE = Some kst \<and>
      same_shapes d d' \<and>
      (\<forall>i' t k. el (encoder_input_data d') (i', t, k) =
         (if i' = i \<and> Suc tx \<le> t \<and> t < fst (snd (shape (encoder_input_data d))) \<and> k = ksi then 1
          else if i' = i \<and> t < length x \<and> map_of (input_token_index g) (x ! t) = Some k then 1
          else el (encoder_input_data d) (i', t, k))) \<and>
      (\<forall>i' t k. el (decoder_input_data d') (i', t, k) =
         (if i' = i \<and> Suc ty \<le> t \<and> t < fst (snd (shape (decoder_input_data d))) \<and> k = kst then 1
          else if i' = i \<and> t < length y \<and> map_of (target_token_index g) (y ! t) = Some k then 1
          else el (decoder_input_data d) (i', t, k))) \<and>
      (\<forall>i' t k. el (decoder_target_data d') (i', t, k) =
         (if i' = i \<and> ty \<le> t \<and> t < fst (snd (shape (decoder_target_data d))) \<and> k = kst then 1
          else if i' = i \<and> Suc t < length y \<and> map_of (target_token_index g) (y ! Suc t) = Some k then 1
          else el (decoder_target_data d) (i', t, k)))"
proof -
  from assms obtain d1 d2 d3 where
    d1: "encode_input_text g i (enumerate 0 x) d = Inr d1" and
    d2: "(case loop_t d1 of
            None \<Rightarrow> Inl NameError
          | Some t \<Rightarrow>
              and_then (lookup (input_token_index g) SPACE) (\<lambda>k.
              and_then (assign_from (encoder_input_data d1) i (t + 1) k 1) (\<lambda>a.
              Inr (d1\<lparr>encoder_input_data := a\<rparr>)))) = Inr d2" and
    d3: "encode_target_text g i (enumerate 0 y) d2 = Inr d3" and
    d': "(case loop_t d3 of
        None \<Rightarrow> Inl NameError
      | Some t \<Rightarrow>
          and_then (lookup (target_token_index g) SPACE) (\<lambda>k.
          and_then (assign_from (decoder_input_data d3) i (t + 1) k 1) (\<lambda>a.
          and_then (lookup (target_token_index g) SPACE) (\<lambda>k'.
          and_then (assign_from (decoder_target_data d3) i t k' 1) (\<lambda>b.
          Inr (d3\<lparr>decoder_input_data := a, decoder_target_data := b\<rparr>)))))) = Inr d'"
    unfolding vectorize_example_def prod.case and_then_Inr_iff by blast
  note E1 = encode_input_text_Inr [OF d1]
  from d2 obtain tx ksi a where
    tx: "loop_t d1 = Some tx" and
    ksi: "map_of (input_token_index g) SPACE = Some ksi" and
    a: "assign_from (encoder_input_data d1) i (tx + 1) ksi 1 = Inr a" and
    d2_eq: "d2 = d1\<lparr>encoder_input_data := a\<rparr>"
    by (auto simp: and_then_Inr_iff lookup_Inr_iff split: option.splits)
  note E3 = encode_target_text_Inr [OF d3]
  from d' obtain ty kst b1 b2 where
    ty: "loop_t d3 = Some ty" and
    kst: "map_of (target_token_index g) SPACE = Some kst" and
    b1: "assign_from (decoder_input_data d3) i (ty + 1) kst 1 = Inr b1" and
    b2: "assign_from (decoder_target_data d3) i ty kst 1 = Inr b2" and
    d'_eq: "d' = d3\<lparr>decoder_input_data := b1, decoder_target_data := b2\<rparr>"
    by (auto simp: and_then_Inr_iff lookup_Inr_iff split: option.splits)
  have c1: "if x = [] then loop_t d = Some tx else tx = length x - 1"
    using E1 tx by (auto simp: last_enumerate0 enumerate0_Nil_iff)
  have c2: "if y = [] then ty = tx else ty = length y - 1"
    using E3 ty tx by (auto simp: d2_eq last_enumerate0 enumerate0_Nil_iff)
  have c3: "loop_t d' = Some ty" by (simp add: d'_eq ty)
  have c4: "same_shapes d d'"
    using E1 E3 assign_from_Inr(1) [OF a] assign_from_Inr(1) [OF b1] assign_from_Inr(1) [OF b2]
    by (simp add: same_shapes_def d'_eq d2_eq)
  have c5: "el (encoder_input_data d') (i', t, k) =
         (if i' = i \<and> Suc tx \<le> t \<and> t < fst (snd (shape (encoder_input_data d))) \<and> k = ksi then 1
          else if i' = i \<and> t < length x \<and> map_of (input_token_index g) (x ! t) = Some k then 1
          else el (encoder_input_data d) (i', t, k))" for i' t k
  proof -
    have "el (encoder_input_data d') (i', t, k) = el a (i', t, k)"
      using E3 by (simp add: d'_eq d2_eq)
    also have "\<dots> = (if i' = i \<and> Suc tx \<le> t \<and> t < fst (snd (shape (encoder_input_data d1))) \<and> k = ksi
        then 1 else el (encoder_input_data d1) (i', t, k))"
      using assign_from_Inr(2) [OF a, of i' t k] by simp
    finally show ?thesis using E1 by (simp add: in_set_enumerate0)
  qed
  have c6: "el (decoder_input_data d') (i', t, k) =
         (if i' = i \<and> Suc ty \<le> t \<and> t < fst (snd (shape (decoder_input_data d))) \<and> k = kst then 1
          else if i' = i \<and> t < length y \<and> map_of (target_token_index g) (y ! t) = Some k then 1
          else el (decoder_input_data d) (i', t, k))" for i' t k
  proof -
    have "el (decoder_input_data d') (i', t, k) = el b1 (i', t, k)"
      by (simp add: d'_eq)
    also have "\<dots> = (if i' = i \<and> Suc ty \<le> t \<and> t < fst (snd (shape (decoder_input_data d3))) \<and> k = kst
        then 1 else el (decoder_input_data d3) (i', t, k))"
      using assign_from_Inr(2) [OF b1, of i' t k] by simp
    finally show ?thesis using E3 E1 by (simp add: in_set_enumerate0 d2_eq)
  qed
  have c7: "el (decoder_target_data d') (i', t, k) =
         (if i' = i \<and> ty \<le> t \<and> t < fst (snd (shape (decoder_target_data d))) \<and> k = kst then 1
          else if i' = i \<and> Suc t < length y \<and> map_of (target_token_index g) (y ! Suc t) = Some k then 1
          else el (decoder_target_data d) (i', t, k))" for i' t k
  proof -
    have "el (decoder_target_data d') (i', t, k) = el b2 (i', t, k)"
      by (simp add: d'_eq)
    also have "\<dots> = (if i' = i \<and> ty \<le> t \<and> t < fst (snd (shape (decoder_target_data d3))) \<and> k = kst
        then 1 else el (decoder_target_data d3) (i', t, k))"
      using assign_from_Inr(2) [OF b2, of i' t k] by simp
    finally show ?thesis using E3 E1 by (simp add: in_set_enumerate0 d2_eq)
  qed
  from c1 c2 c3 ksi kst c4 c5 c6 c7 show ?thesis by blast
qed


lemma same_example_refl: "same_example i d d"
  by (simp add: same_example_def)

lemma same_example_trans: "same_example i d d' \<Longrightarrow> same_example i d' d'' \<Longrightarrow> same_example i d d''"
  by (simp add: same_example_def)

lemma same_shapes_refl: "same_shapes d d"
  by (simp add: same_shapes_def)

lemma same_shapes_trans: "same_shapes d d' \<Longrightarrow> same_shapes d' d'' \<Longrightarrow> same_shapes d d''"
  by (simp add: same_shapes_def)

lemma vectorize_example_frame:
  assumes "vectorize_example g i p d = Inr d'"
  shows "same_shapes d d'" and "i' \<noteq> i \<Longrightarrow> same_example i' d d'"
proof -
  obtain x y where p: "p = (x, y)" by (cases p)
  from vectorize_example_Inr [OF assms [unfolded p]]
  show "same_shapes d d'" by blast
  assume "i' \<noteq> i"
  with vectorize_example_Inr [OF assms [unfolded p]]
  show "same_example i' d d'" unfolding same_example_def by auto
qed

lemma vectorize_loop_frame:
  assumes "vectorize_loop g (enumerate j ps) d = Inr d'"
  shows "same_shapes d d'" and "i < j \<Longrightarrow> same_example i d d'"
proof -
  have "same_shapes d d' \<and> (i < j \<longrightarrow> same_example i d d')"
    using assms
  proof (induction ps arbitrary: j d)
    case Nil
    then show ?case by (simp add: same_shapes_refl same_example_refl)
  next
    case (Cons p ps)
    from Cons.prems obtain dm where
      dm: "vectorize_example g j p d = Inr dm" and
      rest: "vectorize_loop g (enumerate (Suc j) ps) dm = Inr d'"
      by (auto simp: and_then_Inr_iff)
    from Cons.IH [OF rest] vectorize_example_frame(1) [OF dm]
      vectorize_example_frame(2) [OF dm, of i]
    show ?case by (auto intro: same_shapes_trans same_example_trans)
  qed
  then show "same_shapes d d'" and "i < j \<Longrightarrow> same_example i d d'" by blast+
qed

text \<open>
  Example \<open>j + i\<close> is written by one run of the loop body only: the runs before it
  and after it leave its slices alone.
\<close>

lemma vectorize_loop_example:
  assumes "vectorize_loop g (enumerate j ps) d = Inr d'" and "i < length ps"
  shows "\<exists>d1 d2. vectorize_example g (j + i) (ps ! i) d1 = Inr d2 \<and>
           same_example (j + i) d d1 \<and> same_example (j + i) d2 d' \<and>
           same_shapes d d1 \<and> same_shapes d d'"
  using assms
proof (induction ps arbitrary: j d i)
  case Nil
  then show ?case by simp
next
  case (Cons p ps)
  from Cons.prems obtain dm where
    dm: "vectorize_example g j p d = Inr dm" and
    rest: "vectorize_loop g (enumerate (Suc j) ps) dm = Inr d'"
    by (auto simp: and_then_Inr_iff)
  note F = vectorize_example_frame [OF dm]
  note L = vectorize_loop_frame [OF rest]
  show ?case
  proof (cases i)
    case 0
    have "same_example j dm d'" using L(2) [of j] by simp
    with dm F(1) L(1) show ?thesis
      by (auto simp: 0 intro: same_example_refl same_shapes_refl same_shapes_trans)
  next
    case (Suc i')
    with Cons.prems have "i' < length ps" by simp
    from Cons.IH [OF rest this] obtain d1 d2 where
      ex: "vectorize_example g (Suc j + i') (ps ! i') d1 = Inr d2" and
      s1: "same_example (Suc j + i') dm d1" and
      s2: "same_example (Suc j + i') d2 d'" and
      sh: "same_shapes dm d1"
      by blast
    have "same_example (Suc j + i') d dm" using F(2) [of "Suc j + i'"] by simp
    from this s1 have "same_example (Suc j + i') d d1" by (rule same_example_trans)
    with ex s2 sh F(1) L(1) show ?thesis
      by (auto simp: Suc intro: same_shapes_trans)
  qed
qed

lemma vectorize_shapes:
  assumes "vectorize c g = Inr d"
  shows "shape (encoder_input_data d) =
           (length (input_texts c), max_encoder_seq_length g, num_encoder_tokens g)"
    and "shape (decoder_input_data d) =
           (length (input_texts c), max_decoder_seq_length g, num_decoder_tokens g)"
    and "shape (decoder_target_data d) =
           (length (input_texts c), max_decoder_seq_length g, num_decoder_tokens g)"
  using vectorize_loop_frame(1) [OF assms [unfolded vectorize_def Let_def]]
  by (simp_all add: same_shapes_def zeros_def)

lemma vectorize_result:
  assumes v: "vectorize c g = Inr d"
    and wl: "well_loaded c"
    and i: "i < length (input_texts c)"
  shows "\<exists>ksi kst.
      map_of (input_token_index g) SPACE = Some ksi \<and>
      map_of (target_token_index g) SPACE = Some kst \<and>
      (input_texts c ! i \<noteq> [] \<longrightarrow>
        (\<forall>t k. el (encoder_input_data d) (i, t, k) =
          (if length (input_texts c ! i) \<le> t \<and> t < max_encoder_seq_length g \<and> k = ksi then 1
           else if t < length (input_texts c ! i) \<and>
                   map_of (input_token_index g) (input_texts c ! i ! t) = Some k then 1
           else 0))) \<and>
      (\<forall>t k. el (decoder_input_data d) (i, t, k) =
          (if length (target_texts c ! i) \<le> t \<and> t < max_decoder_seq_length g \<and> k = kst then 1
           else if t < length (target_texts c ! i) \<and>
                   map_of (target_token_index g) (target_texts c ! i ! t) = Some k then 1
           else 0)) \<and>
      (\<forall>t k. el (decoder_target_data d) (i, t, k) =
          (if length (target_texts c ! i) \<le> Suc t \<and> t < max_decoder_seq_length g \<and> k = kst then 1
           else if Suc t < length (target_texts c ! i) \<and>
                   map_of (target_token_index g) (target_texts c ! i ! Suc t) = Some k then 1
           else 0))"
proof -
  let ?x = "input_texts c ! i" and ?y = "target_texts c ! i"
  let ?ps = "zip (input_texts c) (target_texts c)"
  let ?d0 = "\<lparr>encoder_input_data =
               zeros (length (input_texts c), max_encoder_seq_length g, num_encoder_tokens g),
             decoder_input_data =
               zeros (length (input_texts c), max_decoder_seq_length g, num_decoder_tokens g),
             decoder_target_data =
               zeros (length (input_texts c), max_decoder_seq_length g, num_decoder_tokens g),
             loop_t = None\<rparr>"
  from wl have len: "length (target_texts c) = length (input_texts c)"
    by (simp add: well_loaded_def)
  with i have ips: "i < length ?ps" and nth: "?ps ! i = (?x, ?y)" by simp_all
  from i len have "?y \<in> set (target_texts c)" by simp
  from well_loaded_target(1) [OF wl this] have y2: "2 \<le> length ?y" .
  from v have loop: "vectorize_loop g (enumerate 0 ?ps) ?d0 = Inr d"
    by (simp add: vectorize_def Let_def)
  from vectorize_loop_example [OF loop ips] nth obtain d1 d2 where
    ex: "vectorize_example g i (?x, ?y) d1 = Inr d2" and
    s1: "same_example i ?d0 d1" and
    s2: "same_example i d2 d" and
    sh: "same_shapes ?d0 d1"
    by auto
  from vectorize_example_Inr [OF ex] obtain tx ty ksi kst where
    tx: "if ?x = [] then loop_t d1 = Some tx else tx = length ?x - 1" and
    ty: "if ?y = [] then ty = tx else ty = length ?y - 1" and
    ksi: "map_of (input_token_index g) SPACE = Some ksi" and
    kst: "map_of (target_token_index g) SPACE = Some kst" and
    e1: "\<And>i' t k. el (encoder_input_data d2) (i', t, k) =
         (if i' = i \<and> Suc tx \<le> t \<and> t < fst (snd (shape (encoder_input_data d1))) \<and> k = ksi then 1
          else if i' = i \<and> t < length ?x \<and> map_of (input_token_index g) (?x ! t) = Some k then 1
          else el (encoder_input_data d1) (i', t, k))" and
    e2: "\<And>i' t k. el (decoder_input_data d2) (i', t, k) =
         (if i' = i \<and> Suc ty \<le> t \<and> t < fst (snd (shape (decoder_input_data d1))) \<and> k = kst then 1
          else if i' = i \<and> t < length ?y \<and> map_of (target_token_index g) (?y ! t) = Some k then 1
          else el (decoder_input_data d1) (i', t, k))" and
    e3: "\<And>i' t k. el (decoder_target_data d2) (i', t, k) =
         (if i' = i \<and> ty \<le> t \<and> t < fst (snd (shape (decoder_target_data d1))) \<and> k = kst then 1
          else if i' = i \<and> Suc t < length ?y \<and> map_of (target_token_index g) (?y ! Suc t) = Some k then 1
          else el (decoder_target_data d1) (i', t, k))"
    by blast
  from ty y2 have ty': "Suc ty = length ?y" by (auto split: if_splits)
  from sh have shapes:
    "fst (snd (shape (encoder_input_data d1))) = max_encoder_seq_length g"
    "fst (snd (shape (decoder_input_data d1))) = max_decoder_seq_length g"
    "fst (snd (shape (decoder_target_data d1))) = max_decoder_seq_length g"
    by (simp_all add: same_shapes_def zeros_def)
  from s1 have zero:
    "\<And>t k. el (encoder_input_data d1) (i, t, k) = 0"
    "\<And>t k. el (decoder_input_data d1) (i, t, k) = 0"
    "\<And>t k. el (decoder_target_data d1) (i, t, k) = 0"
    by (simp_all add: same_example_def zeros_def)
  from s2 have fin:
    "\<And>t k. el (encoder_input_data d) (i, t, k) = el (encoder_input_data d2) (i, t, k)"
    "\<And>t k. el (decoder_input_data d) (i, t, k) = el (decoder_input_data d2) (i, t, k)"
    "\<And>t k. el (decoder_target_data d) (i, t, k) = el (decoder_target_data d2) (i, t, k)"
    by (simp_all add: same_example_def)
  have c1: "el (encoder_input_data d) (i, t, k) =
          (if length ?x \<le> t \<and> t < max_encoder_seq_length g \<and> k = ksi then 1
           else if t < length ?x \<and> map_of (input_token_index g) (?x ! t) = Some k then 1
           else 0)" if "?x \<noteq> []" for t k
  proof -
    from that tx have "Suc tx = length ?x" by (cases ?x) auto
    then show ?thesis by (simp add: fin(1) e1 shapes(1) zero(1))
  qed
  have c2: "el (decoder_input_data d) (i, t, k) =
          (if length ?y \<le> t \<and> t < max_decoder_seq_length g \<and> k = kst then 1
           else if t < length ?y \<and> map_of (target_token_index g) (?y ! t) = Some k then 1
           else 0)" for t k
    by (simp add: fin(2) e2 shapes(2) zero(2) ty')
  have c3: "el (decoder_target_data d) (i, t, k) =
          (if length ?y \<le> Suc t \<and> t < max_decoder_seq_length g \<and> k = kst then 1
           else if Suc t < length ?y \<and> map_of (target_token_index g) (?y ! Suc t) = Some k then 1
           else 0)" for t k
  proof -
    have "ty \<le> t \<longleftrightarrow> length ?y \<le> Suc t" using ty' by arith
    then show ?thesis by (simp add: fin(3) e3 shapes(3) zero(3))
  qed
  from ksi kst c1 c2 c3 show ?thesis by blast
qed

subsection \<open>The loops complete on well-formed data\<close>

lemma assign_ok:
  "shape a = (n, m, w) \<Longrightarrow> i < n \<Longrightarrow> t < m \<Longrightarrow> k < w \<Longrightarrow>
   assign a i t k v = Inr (a\<lparr>el := (el a)((i, t, k) := v)\<rparr>)"
  by (simp add: assign_def)

lemma assign_from_ok:
  "shape a = (n, m, w) \<Longrightarrow> i < n \<Longrightarrow> k < w \<Longrightarrow> \<exists>a'. assign_from a i t k v = Inr a'"
  by (simp add: assign_from_def)

lemma encode_input_text_ok:
  assumes "shape (encoder_input_data d) = (n, m, w)" and "i < n"
    and "\<forall>(t, ch) \<in> set ps. t < m \<and> (\<exists>k<w. map_of (input_token_index g) ch = Some k)"
  shows "\<exists>d'. encode_input_text g i ps d = Inr d'"
  using assms
proof (induction ps arbitrary: d)
  case Nil
  then show ?case by simp
next
  case (Cons p ps)
  obtain t ch where p: "p = (t, ch)" by (cases p)
  from Cons.prems(3) obtain k where t: "t < m" and k: "k < w"
    and look: "map_of (input_token_index g) ch = Some k"
    by (auto simp: p)
  let ?a = "(encoder_input_data d)\<lparr>el := (el (encoder_input_data d))((i, t, k) := 1)\<rparr>"
  let ?d = "d\<lparr>encoder_input_data := ?a, loop_t := Some t\<rparr>"
  have "shape (encoder_input_data ?d) = (n, m, w)" using Cons.prems(1) by simp
  from Cons.IH [OF this Cons.prems(2)] Cons.prems(3)
  obtain d' where "encode_input_text g i ps ?d = Inr d'" by auto
  then show ?case
    by (simp add: p lookup_def look assign_ok [OF Cons.prems(1,2) t k])
qed

lemma encode_target_text_ok:
  assumes "shape (decoder_input_data d) = (n, m, w)"
    and "shape (decoder_target_data d) = (n, m, w)" and "i < n"
    and "\<forall>(t, ch) \<in> set ps. t < m \<and> (\<exists>k<w. map_of (target_token_index g) ch = Some k)"
  shows "\<exists>d'. encode_target_text g i ps d = Inr d'"
  using assms
proof (induction ps arbitrary: d)
  case Nil
  then show ?case by simp
next
  case (Cons p ps)
  obtain t ch where p: "p = (t, ch)" by (cases p)
  from Cons.prems(4) obtain k where t: "t < m" and k: "k < w"
    and look: "map_of (target_token_index g) ch = Some k"
    by (auto simp: p)
  from t have t1: "t - Suc 0 < m" by simp
  let ?a = "(decoder_input_data d)\<lparr>el := (el (decoder_input_data d))((i, t, k) := 1)\<rparr>"
  let ?b = "if t > 0
    then (decoder_target_data d)\<lparr>el := (el (decoder_target_data d))((i, t - 1, k) := 1)\<rparr>
    else decoder_target_data d"
  let ?d = "d\<lparr>decoder_input_data := ?a, decoder_target_data := ?b, loop_t := Some t\<rparr>"
  have "shape (decoder_input_data ?d) = (n, m, w)" and "shape (decoder_target_data ?d) = (n, m, w)"
    using Cons.prems(1,2) by simp_all
  from Cons.IH [OF this Cons.prems(3)] Cons.prems(4)
  obtain d' where "encode_target_text g i ps ?d = Inr d'" by auto
  moreover have "encode_target_text g i (p # ps) d = encode_target_text g i ps ?d"
    using assign_ok [OF Cons.prems(1,3) t k, of 1] assign_ok [OF Cons.prems(2,3) t1 k, of 1]
    by (cases "0 < t") (simp_all add: p lookup_def look)
  ultimately show ?case by simp
qed



lemma encodable_enumerate:
  assumes "encodable idx m w s"
  shows "\<forall>(t, ch) \<in> set (enumerate 0 s). t < m \<and> (\<exists>k<w. map_of idx ch = Some k)"
  using assms by (auto simp: encodable_def in_set_enumerate0)

lemma vectorize_example_ok:
  assumes se: "shape (encoder_input_data d) = (n, me, we)"
    and si: "shape (decoder_input_data d) = (n, md, wd)"
    and st: "shape (decoder_target_data d) = (n, md, wd)"
    and i: "i < n"
    and x: "encodable (input_token_index g) me we x" "x \<noteq> []"
    and y: "encodable (target_token_index g) md wd y"
    and sp: "\<exists>k<we. map_of (input_token_index g) SPACE = Some k"
      "\<exists>k<wd. map_of (target_token_index g) SPACE = Some k"
  shows "\<exists>d'. vectorize_example g i (x, y) d = Inr d'"
proof -
  from encode_input_text_ok [OF se i encodable_enumerate [OF x(1)]]
  obtain d1 where d1: "encode_input_text g i (enumerate 0 x) d = Inr d1" ..
  note E1 = encode_input_text_Inr [OF d1]
  from E1 x(2) obtain tx where tx: "loop_t d1 = Some tx" by (simp add: enumerate0_Nil_iff)
  from sp obtain ksi kst where ksi: "ksi < we" "map_of (input_token_index g) SPACE = Some ksi"
    and kst: "kst < wd" "map_of (target_token_index g) SPACE = Some kst" by blast
  from E1 se have "shape (encoder_input_data d1) = (n, me, we)" by simp
  from assign_from_ok [OF this i ksi(1)]
  obtain a where a: "assign_from (encoder_input_data d1) i (tx + 1) ksi 1 = Inr a" by blast
  let ?d2 = "d1\<lparr>encoder_input_data := a\<rparr>"
  have "shape (decoder_input_data ?d2) = (n, md, wd)"
    and "shape (decoder_target_data ?d2) = (n, md, wd)"
    using E1 si st by simp_all
  from encode_target_text_ok [OF this i encodable_enumerate [OF y]]
  obtain d3 where d3: "encode_target_text g i (enumerate 0 y) ?d2 = Inr d3" ..
  note E3 = encode_target_text_Inr [OF d3]
  from E3 tx obtain ty where ty: "loop_t d3 = Some ty" by (auto split: if_splits)
  from E3 E1 si st have "shape (decoder_input_data d3) = (n, md, wd)"
    and "shape (decoder_target_data d3) = (n, md, wd)" by simp_all
  from assign_from_ok [OF this(1) i kst(1)] assign_from_ok [OF this(2) i kst(1)]
  obtain b1 b2 where "assign_from (decoder_input_data d3) i (ty + 1) kst 1 = Inr b1"
    and "assign_from (decoder_target_data d3) i ty kst 1 = Inr b2" by blast
  with d1 tx ksi(2) a d3 ty kst(2) show ?thesis
    by (simp add: vectorize_example_def lookup_def)
qed

lemma vectorize_loop_ok:
  assumes "shape (encoder_input_data d) = (n, me, we)"
    and "shape (decoder_input_data d) = (n, md, wd)"
    and "shape (decoder_target_data d) = (n, md, wd)"
    and "j + length ps \<le> n"
    and "\<forall>(x, y) \<in> set ps. encodable (input_token_index g) me we x \<and> x \<noteq> [] \<and>
           encodable (target_token_index g) md wd y"
    and "\<exists>k<we. map_of (input_token_index g) SPACE = Some k"
    and "\<exists>k<wd. map_of (target_token_index g) SPACE = Some k"
  shows "\<exists>d'. vectorize_loop g (enumerate j ps) d = Inr d'"
  using assms(1-5)
proof (induction ps arbitrary: j d)
  case Nil
  then show ?case by simp
next
  case (Cons p ps)
  obtain x y where p: "p = (x, y)" by (cases p)
  from Cons.prems(4) have j: "j < n" by simp
  from Cons.prems(5) have x: "encodable (input_token_index g) me we x" "x \<noteq> []"
    and y: "encodable (target_token_index g) md wd y" by (auto simp: p)
  from vectorize_example_ok [OF Cons.prems(1-3) j x y assms(6,7)]
  obtain dm where dm: "vectorize_example g j (x, y) d = Inr dm" ..
  from vectorize_example_frame(1) [OF dm] Cons.prems(1-3)
  have "shape (encoder_input_data dm) = (n, me, we)"
    and "shape (decoder_input_data dm) = (n, md, wd)"
    and "shape (decoder_target_data dm) = (n, md, wd)"
    by (simp_all add: same_shapes_def)
  from Cons.IH [OF this, of "Suc j"] Cons.prems(4,5)
  obtain d' where "vectorize_loop g (enumerate (Suc j) ps) dm = Inr d'" by auto
  with dm show ?case by (simp add: p)
qed

subsection \<open>The vocabularies of a loaded corpus\<close>

lemma vocab_chars:
  assumes "well_loaded c" and "well_indexed c g"
  shows "sorted (input_characters g)" and "distinct (input_characters g)"
    and "set (input_characters g) = \<Union> (set ` set (input_texts c))"
    and "sorted (target_characters g)" and "distinct (target_characters g)"
    and "set (target_characters g) = \<Union> (set ` set (target_texts c))"
  using assms well_loaded_finite [OF assms(1)]
  by (auto simp: well_indexed_def well_loaded_def)

lemma input_index_iff:
  assumes "well_loaded c" and "well_indexed c g"
  shows "map_of (input_token_index g) ch = Some k
    \<longleftrightarrow> k < num_encoder_tokens g \<and> input_characters g ! k = ch"
proof -
  from assms(2) have "input_token_index g = zip (input_characters g) [0..<length (input_characters g)]"
    and "num_encoder_tokens g = length (input_characters g)"
    by (simp_all add: well_indexed_def)
  with map_of_index [OF vocab_chars(2) [OF assms]] show ?thesis by simp
qed

lemma target_index_iff:
  assumes "well_loaded c" and "well_indexed c g"
  shows "map_of (target_token_index g) ch = Some k
    \<longleftrightarrow> k < num_decoder_tokens g \<and> target_characters g ! k = ch"
proof -
  from assms(2) have "target_token_index g = zip (target_characters g) [0..<length (target_characters g)]"
    and "num_decoder_tokens g = length (target_characters g)"
    by (simp_all add: well_indexed_def)
  with map_of_index [OF vocab_chars(5) [OF assms]] show ?thesis by simp
qed

lemma input_index_ex:
  assumes "well_loaded c" and "well_indexed c g" and "ch \<in> set (input_characters g)"
  shows "\<exists>k<num_encoder_tokens g. map_of (input_token_index g) ch = Some k"
proof -
  from assms(2) have n: "num_encoder_tokens g = length (input_characters g)"
    by (simp add: well_indexed_def)
  from assms(3) obtain k where "k < length (input_characters g)" "input_characters g ! k = ch"
    by (auto simp: in_set_conv_nth)
  with input_index_iff [OF assms(1,2), of ch k] n show ?thesis by auto
qed

lemma target_index_ex:
  assumes "well_loaded c" and "well_indexed c g" and "ch \<in> set (target_characters g)"
  shows "\<exists>k<num_decoder_tokens g. map_of (target_token_index g) ch = Some k"
proof -
  from assms(2) have n: "num_decoder_tokens g = length (target_characters g)"
    by (simp add: well_indexed_def)
  from assms(3) obtain k where "k < length (target_characters g)" "target_characters g ! k = ch"
    by (auto simp: in_set_conv_nth)
  with target_index_iff [OF assms(1,2), of ch k] n show ?thesis by auto
qed

lemma input_text_encodable:
  assumes "well_loaded c" and "well_indexed c g" and "x \<in> set (input_texts c)"
  shows "encodable (input_token_index g) (max_encoder_seq_length g) (num_encoder_tokens g) x"
proof -
  from assms(2) have "max_encoder_seq_length g = Max (set (map length (input_texts c)))"
    by (simp add: well_indexed_def)
  with assms(3) have "length x \<le> max_encoder_seq_length g" by simp
  moreover have "\<exists>k<num_encoder_tokens g. map_of (input_token_index g) ch = Some k"
    if "ch \<in> set x" for ch
  proof -
    from that assms(3) have "ch \<in> set (input_characters g)"
      by (auto simp: vocab_chars(3) [OF assms(1,2)])
    from input_index_ex [OF assms(1,2) this] show ?thesis .
  qed
  ultimately show ?thesis by (simp add: encodable_def)
qed

lemma target_text_encodable:
  assumes "well_loaded c" and "well_indexed c g" and "y \<in> set (target_texts c)"
  shows "encodable (target_token_index g) (max_decoder_seq_length g) (num_decoder_tokens g) y"
proof -
  from assms(2) have "max_decoder_seq_length g = Max (set (map length (target_texts c)))"
    by (simp add: well_indexed_def)
  with assms(3) have "length y \<le> max_decoder_seq_length g" by simp
  moreover have "\<exists>k<num_decoder_tokens g. map_of (target_token_index g) ch = Some k"
    if "ch \<in> set y" for ch
  proof -
    from that assms(3) have "ch \<in> set (target_characters g)"
      by (auto simp: vocab_chars(6) [OF assms(1,2)])
    from target_index_ex [OF assms(1,2) this] show ?thesis .
  qed
  ultimately show ?thesis by (simp add: encodable_def)
qed

lemma markers_in_target:
  assumes "well_loaded c" and "well_indexed c g"
  shows "TAB \<in> set (target_characters g)" and "NEWLINE \<in> set (target_characters g)"
proof -
  from assms(2) have "input_texts c \<noteq> []" by (simp add: well_indexed_def)
  with assms(1) obtain y where y: "y \<in> set (target_texts c)"
    by (cases "target_texts c") (auto simp: well_loaded_def)
  with assms(1) obtain s where "y = [TAB] @ s @ [NEWLINE]" by (auto simp: well_loaded_def)
  with y show "TAB \<in> set (target_characters g)" and "NEWLINE \<in> set (target_characters g)"
    unfolding vocab_chars(6) [OF assms] by (auto intro!: bexI [of _ y])
qed

lemma vectorize_ok:
  assumes wl: "well_loaded c" and wi: "well_indexed c g"
    and ne: "\<forall>x \<in> set (input_texts c). x \<noteq> []"
    and sp: "SPACE \<in> set (input_characters g)" "SPACE \<in> set (target_characters g)"
  shows "\<exists>d. vectorize c g = Inr d"
proof -
  let ?ps = "zip (input_texts c) (target_texts c)"
  have "\<forall>(x, y) \<in> set ?ps.
      encodable (input_token_index g) (max_encoder_seq_length g) (num_encoder_tokens g) x \<and>
      x \<noteq> [] \<and>
      encodable (target_token_index g) (max_decoder_seq_length g) (num_decoder_tokens g) y"
    using input_text_encodable [OF wl wi] target_text_encodable [OF wl wi] ne
    by (auto dest: set_zip_leftD set_zip_rightD)
  moreover have "0 + length ?ps \<le> length (input_texts c)" by simp
  ultimately show ?thesis
    unfolding vectorize_def Let_def
    by (intro vectorize_loop_ok [where n = "length (input_texts c)"
          and me = "max_encoder_seq_length g" and we = "num_encoder_tokens g"
          and md = "max_decoder_seq_length g" and wd = "num_decoder_tokens g"]
        input_index_ex [OF wl wi sp(1)] target_index_ex [OF wl wi sp(2)])
      (simp_all add: zeros_def)
qed

subsection \<open>Slices of the arrays\<close>

lemma length_row: "length (row a i t) = snd (snd (shape a))"
  by (simp add: row_def split: prod.splits)

lemma row_nth: "k < snd (snd (shape a)) \<Longrightarrow> row a i t ! k = el a (i, t, k)"
  by (cases "shape a") (simp add: row_def)

lemma row_one_hot:
  assumes "snd (snd (shape a)) = w" and "k0 < w"
    and "\<And>k. k < w \<Longrightarrow> el a (i, t, k) = (if k = k0 then 1 else 0)"
  shows "one_hot_at (row a i t) k0"
  unfolding one_hot_at_def
proof
  show "k0 < length (row a i t)" using assms(1,2) by (simp add: length_row)
  show "row a i t = (replicate (length (row a i t)) 0)[k0 := 1]"
  proof (rule nth_equalityI)
    show "length (row a i t) = length ((replicate (length (row a i t)) 0)[k0 := 1])" by simp
    fix k assume "k < length (row a i t)"
    then have k: "k < w" using assms(1) by (simp add: length_row)
    have "row a i t ! k = el a (i, t, k)"
      using k assms(1) by (simp add: row_nth)
    with assms(3) [OF k] k assms(1)
    show "row a i t ! k = (replicate (length (row a i t)) 0)[k0 := 1] ! k"
      by (simp add: length_row nth_list_update)
  qed
qed

lemma row_cong:
  assumes "snd (snd (shape a)) = snd (snd (shape b))"
    and "\<And>k. el a (i, t, k) = el b (j, s, k)"
  shows "row a i t = row b j s"
  using assms by (cases "shape a"; cases "shape b") (simp add: row_def)

lemma loaded_and_indexed:
  assumes "load_data content = Inr c" and "build_vocab c = Inr g"
  shows "well_loaded c" and "well_indexed c g"
  using load_data_well_loaded [OF assms(1)] build_vocab_well_indexed [OF assms(2)] .

lemma prepare_Inr_iff:
  "prepare content = Inr (c, g, d) \<longleftrightarrow>
     load_data content = Inr c \<and> build_vocab c = Inr g \<and> vectorize c g = Inr d"
  by (auto simp: prepare_def and_then_Inr_iff)

lemma reverse_target_eq:
  assumes "well_loaded c" and "well_indexed c g"
  shows "reverse_target_char_index g = zip [0..<num_decoder_tokens g] (target_characters g)"
proof -
  let ?cs = "target_characters g"
  from assms(2) have idx: "target_token_index g = zip ?cs [0..<length ?cs]"
    and n: "num_decoder_tokens g = length ?cs"
    by (simp_all add: well_indexed_def)
  have "map (\<lambda>(char, i). (i, char)) (zip ?cs [0..<length ?cs]) = zip [0..<length ?cs] ?cs"
    by (simp add: zip_commute [of "[0..<length ?cs]" ?cs])
  then show ?thesis
    by (simp add: reverse_target_char_index_def idx n dict_distinct)
qed

lemma reverse_target_lookup:
  assumes "well_loaded c" and "well_indexed c g" and "k < num_decoder_tokens g"
  shows "map_of (reverse_target_char_index g) k = Some (target_characters g ! k)"
proof -
  from assms(2) have n: "num_decoder_tokens g = length (target_characters g)"
    by (simp add: well_indexed_def)
  have "distinct (map fst (zip [0..<num_decoder_tokens g] (target_characters g)))"
    by (simp add: n)
  then have "map_of (zip [0..<num_decoder_tokens g] (target_characters g)) k
      = Some (target_characters g ! k)
    \<longleftrightarrow> (k, target_characters g ! k) \<in> set (zip [0..<num_decoder_tokens g] (target_characters g))"
    by (rule map_of_eq_Some_iff)
  also have "\<dots>" using assms(3) by (auto simp: in_set_zip n intro!: exI [of _ k])
  finally show ?thesis by (simp add: reverse_target_eq [OF assms(1,2)])
qed

lemma index_bij:
  assumes "distinct chars"
  shows "dom (map_of (zip chars [0..<length chars])) = set chars"
    and "bij_betw (\<lambda>ch. the (map_of (zip chars [0..<length chars]) ch)) (set chars) {0..<length chars}"
proof -
  let ?f = "\<lambda>ch. the (map_of (zip chars [0..<length chars]) ch)"
  have nth: "?f (chars ! k) = k" if "k < length chars" for k
    using map_of_index [OF assms, of "chars ! k" k] that by simp
  show "dom (map_of (zip chars [0..<length chars])) = set chars"
    by (simp add: dom_map_of_zip)
  show "bij_betw ?f (set chars) {0..<length chars}"
    unfolding bij_betw_def
  proof
    show "inj_on ?f (set chars)"
      by (rule inj_onI) (metis in_set_conv_nth nth)
    show "?f ` set chars = {0..<length chars}"
    proof
      show "?f ` set chars \<subseteq> {0..<length chars}"
        by (auto simp: in_set_conv_nth nth)
      show "{0..<length chars} \<subseteq> ?f ` set chars"
      proof
        fix k assume "k \<in> {0..<length chars}"
        then have k: "k < length chars" by simp
        then have "chars ! k \<in> set chars" by simp
        with nth [OF k] show "k \<in> ?f ` set chars" by force
      qed
    qed
  qed
qed

lemma build_vocab_ok:
  assumes "input_texts c \<noteq> []" and "target_texts c \<noteq> []"
  shows "\<exists>g. build_vocab c = Inr g"
  using assms by (auto simp: build_vocab_def Let_def py_max_def split: list.splits)

text \<open>
  A slice whose entries follow the pattern left by the loop body is one-hot at the index
  of the padded text's character.
\<close>

lemma padded_one_hot:
  assumes w: "snd (snd (shape a)) = w"
    and el: "\<And>k. el a (i, t, k) =
          (if length s \<le> t \<and> t < m \<and> k = ksp then 1
           else if t < length s \<and> map_of idx (s ! t) = Some k then 1
           else 0)"
    and t: "t < m"
    and sp: "map_of idx SPACE = Some ksp"
    and k0: "map_of idx (padded s t) = Some k0" "k0 < w"
  shows "one_hot_at (row a i t) k0"
proof (rule row_one_hot [OF w k0(2)])
  fix k assume "k < w"
  show "el a (i, t, k) = (if k = k0 then 1 else 0)"
  proof (cases "t < length s")
    case True
    with k0(1) have "map_of idx (s ! t) = Some k0" by (simp add: padded_def)
    with True show ?thesis by (auto simp: el)
  next
    case False
    with k0(1) sp have "k0 = ksp" by (simp add: padded_def)
    with False t show ?thesis by (simp add: el)
  qed
qed

lemma padded_in_vocab:
  assumes "set s \<subseteq> A" and "SPACE \<in> A"
  shows "padded s t \<in> A"
  using assms by (auto simp: padded_def)

lemma prepared_slices:
  assumes wl: "well_loaded c" and wi: "well_indexed c g" and v: "vectorize c g = Inr d"
    and i: "i < length (input_texts c)"
  shows "input_texts c ! i \<noteq> [] \<Longrightarrow> t < max_encoder_seq_length g \<Longrightarrow>
           \<exists>k. lookup (input_token_index g) (padded (input_texts c ! i) t) = Inr k \<and>
               one_hot_at (row (encoder_input_data d) i t) k"
    and "t < max_decoder_seq_length g \<Longrightarrow>
           \<exists>k. lookup (target_token_index g) (padded (target_texts c ! i) t) = Inr k \<and>
               one_hot_at (row (decoder_input_data d) i t) k"
    and "t < max_decoder_seq_length g \<Longrightarrow>
           \<exists>k. lookup (target_token_index g) (padded (tl (target_texts c ! i)) t) = Inr k \<and>
               one_hot_at (row (decoder_target_data d) i t) k"
proof -
  let ?x = "input_texts c ! i" and ?y = "target_texts c ! i"
  from wl i have iy: "i < length (target_texts c)" by (simp add: well_loaded_def)
  from i have xin: "?x \<in> set (input_texts c)" by simp
  from iy have yin: "?y \<in> set (target_texts c)" by simp
  note S = vectorize_shapes [OF v]
  from vectorize_result [OF v wl i] obtain ksi kst where
    ksi: "map_of (input_token_index g) SPACE = Some ksi" and
    kst: "map_of (target_token_index g) SPACE = Some kst" and
    e1: "?x \<noteq> [] \<Longrightarrow> el (encoder_input_data d) (i, t, k) =
          (if length ?x \<le> t \<and> t < max_encoder_seq_length g \<and> k = ksi then 1
           else if t < length ?x \<and> map_of (input_token_index g) (?x ! t) = Some k then 1
           else 0)" and
    e2: "el (decoder_input_data d) (i, t, k) =
          (if length ?y \<le> t \<and> t < max_decoder_seq_length g \<and> k = kst then 1
           else if t < length ?y \<and> map_of (target_token_index g) (?y ! t) = Some k then 1
           else 0)" and
    e3: "el (decoder_target_data d) (i, t, k) =
          (if length ?y \<le> Suc t \<and> t < max_decoder_seq_length g \<and> k = kst then 1
           else if Suc t < length ?y \<and> map_of (target_token_index g) (?y ! Suc t) = Some k then 1
           else 0)" for t k
    by blast
  from wi have n: "num_encoder_tokens g = length (input_characters g)"
    "num_decoder_tokens g = length (target_characters g)"
    by (simp_all add: well_indexed_def)
  from ksi input_index_iff [OF wl wi, of SPACE ksi]
  have "ksi < length (input_characters g)" and "input_characters g ! ksi = SPACE"
    by (simp_all add: n)
  then have spi: "SPACE \<in> set (input_characters g)" by (metis nth_mem)
  from kst target_index_iff [OF wl wi, of SPACE kst]
  have "kst < length (target_characters g)" and "target_characters g ! kst = SPACE"
    by (simp_all add: n)
  then have spt: "SPACE \<in> set (target_characters g)" by (metis nth_mem)
  have subx: "set ?x \<subseteq> set (input_characters g)"
    using xin by (auto simp: vocab_chars(3) [OF wl wi])
  have suby: "set ?y \<subseteq> set (target_characters g)"
    using yin by (auto simp: vocab_chars(6) [OF wl wi])
  have subtl: "set (tl ?y) \<subseteq> set (target_characters g)"
    using suby by (cases ?y) auto
  {
    assume ne: "?x \<noteq> []" and t: "t < max_encoder_seq_length g"
    from input_index_ex [OF wl wi padded_in_vocab [OF subx spi, of t]]
    obtain k0 where k0: "k0 < num_encoder_tokens g"
      "map_of (input_token_index g) (padded ?x t) = Some k0" by blast
    have "one_hot_at (row (encoder_input_data d) i t) k0"
      by (rule padded_one_hot [where m = "max_encoder_seq_length g" and ksp = ksi
            and idx = "input_token_index g" and s = ?x and w = "num_encoder_tokens g"])
        (simp_all add: S e1 [OF ne] t ksi k0)
    with k0(2) show "\<exists>k. lookup (input_token_index g) (padded ?x t) = Inr k \<and>
               one_hot_at (row (encoder_input_data d) i t) k"
      by (auto simp: lookup_Inr_iff)
  }
  {
    assume t: "t < max_decoder_seq_length g"
    from target_index_ex [OF wl wi padded_in_vocab [OF suby spt, of t]]
    obtain k0 where k0: "k0 < num_decoder_tokens g"
      "map_of (target_token_index g) (padded ?y t) = Some k0" by blast
    have "one_hot_at (row (decoder_input_data d) i t) k0"
      by (rule padded_one_hot [where m = "max_decoder_seq_length g" and ksp = kst
            and idx = "target_token_index g" and s = ?y and w = "num_decoder_tokens g"])
        (simp_all add: S e2 t kst k0)
    with k0(2) show "\<exists>k. lookup (target_token_index g) (padded ?y t) = Inr k \<and>
               one_hot_at (row (decoder_input_data d) i t) k"
      by (auto simp: lookup_Inr_iff)
  }
  {
    assume t: "t < max_decoder_seq_length g"
    from target_index_ex [OF wl wi padded_in_vocab [OF subtl spt, of t]]
    obtain k0 where k0: "k0 < num_decoder_tokens g"
      "map_of (target_token_index g) (padded (tl ?y) t) = Some k0" by blast
    have e3': "el (decoder_target_data d) (i, t, k) =
          (if length (tl ?y) \<le> t \<and> t < max_decoder_seq_length g \<and> k = kst then 1
           else if t < length (tl ?y) \<and> map_of (target_token_index g) (tl ?y ! t) = Some k then 1
           else 0)" for k
    proof -
      have "length (tl ?y) \<le> t \<longleftrightarrow> length ?y \<le> Suc t" by auto
      moreover have "t < length (tl ?y) \<longleftrightarrow> Suc t < length ?y" by auto
      moreover have "t < length (tl ?y) \<Longrightarrow> tl ?y ! t = ?y ! Suc t" by (simp add: nth_tl)
      ultimately show ?thesis unfolding e3 by auto
    qed
    have "one_hot_at (row (decoder_target_data d) i t) k0"
      by (rule padded_one_hot [where m = "max_decoder_seq_length g" and ksp = kst
            and idx = "target_token_index g" and s = "tl ?y" and w = "num_decoder_tokens g"])
        (simp_all add: S e3' t kst k0)
    with k0(2) show "\<exists>k. lookup (target_token_index g) (padded (tl ?y) t) = Inr k \<and>
               one_hot_at (row (decoder_target_data d) i t) k"
      by (auto simp: lookup_Inr_iff)
  }
qed

section \<open>Properties of the sampling loop\<close>

lemma decoder_model_Inr:
  assumes "decoder_model m xs states = Inr (out, h, c)"
  shows "\<exists>h0 c0. states = [h0, c0] \<and>
           out = map (decoder_dense m) (fst (lstm (decoder_lstm m) xs (h0, c0))) \<and>
           (h, c) = snd (lstm (decoder_lstm m) xs (h0, c0))"
  using assms
  by (auto simp: decoder_model_def split: list.splits prod.splits)

lemma single_token_seq_Inr:
  "single_token_seq n k = Inr ts \<longleftrightarrow> k < n \<and> ts = [(replicate n 0)[k := 1]]"
  by (auto simp: single_token_seq_def)

text \<open>What one run of the loop body does, when it raises nothing.\<close>

lemma loop_body_Inr:
  assumes "loop_body g m st = Inr st'"
  shows "\<exists>out h c tok ch.
      decoder_model m (target_seq st) (states_value st) = Inr (out, h, c) \<and>
      out \<noteq> [] \<and> last out \<noteq> [] \<and> tok = first_max (last out) \<and>
      tok < num_decoder_tokens g \<and>
      map_of (reverse_target_char_index g) tok = Some ch \<and>
      st' = \<lparr>target_seq = [(replicate (num_decoder_tokens g) 0)[tok := 1]],
             states_value = [h, c],
             stop_condition = (ch = NEWLINE \<or>
                max_decoder_seq_length g < Suc (length (decoded_sentence st)) \<or>
                stop_condition st),
             decoded_sentence = decoded_sentence st @ [ch]\<rparr>"
proof -
  from assms obtain out h c where
    dm: "decoder_model m (target_seq st) (states_value st) = Inr (out, h, c)"
    by (cases "decoder_model m (target_seq st) (states_value st)")
      (auto simp: loop_body_def)
  from assms dm obtain tok where
    tok: "(if out = [] then Inl IndexError else argmax (last out)) = Inr tok"
    by (cases "if out = [] then Inl IndexError else argmax (last out)")
      (auto simp: loop_body_def)
  then have out: "out \<noteq> []" "last out \<noteq> []" "tok = first_max (last out)"
    by (auto simp: argmax_def split: if_splits)
  from assms dm tok obtain ch where
    ch: "lookup (reverse_target_char_index g) tok = Inr ch"
    by (cases "lookup (reverse_target_char_index g) tok") (auto simp: loop_body_def)
  from assms dm tok ch obtain ts where
    ts: "single_token_seq (num_decoder_tokens g) tok = Inr ts"
    by (cases "single_token_seq (num_decoder_tokens g) tok")
      (auto simp: loop_body_def Let_def)
  have disj: "(if P then True else Q) = (P \<or> Q)" for P Q by simp
  from assms dm tok ch ts
  have "st' = \<lparr>target_seq = ts, states_value = [h, c],
             stop_condition = (ch = NEWLINE \<or>
                max_decoder_seq_length g < Suc (length (decoded_sentence st)) \<or>
                stop_condition st),
             decoded_sentence = decoded_sentence st @ [ch]\<rparr>"
    by (simp add: loop_body_def Let_def disj disj_ac)
  with dm out ch ts show ?thesis
    by (auto simp: single_token_seq_Inr lookup_Inr_iff)
qed

lemma run_body_Suc: "run_body g m (Suc k) st = and_then (run_body g m k st) (loop_body g m)"
proof (induction k arbitrary: st)
  case 0
  show ?case by (cases "loop_body g m st") simp_all
next
  case (Suc k)
  show ?case
  proof (cases "loop_body g m st")
    case (Inl e)
    then show ?thesis by simp
  next
    case (Inr b)
    then have "run_body g m (Suc (Suc k)) st = run_body g m (Suc k) b" by simp
    also have "\<dots> = and_then (run_body g m k b) (loop_body g m)" by (rule Suc.IH)
    also have "\<dots> = and_then (run_body g m (Suc k) st) (loop_body g m)" using Inr by simp
    finally show ?thesis .
  qed
qed

text \<open>
  The loop runs its body \<open>k\<close> times, where \<open>k\<close> is at most one more than the number
  of characters that still fit under the cap; no state before the last has the stop
  flag; the last state, if the body raised nothing, has it.
\<close>

lemma sampling_loop_run:
  "\<exists>k. k \<le> Suc (max_decoder_seq_length g - length (decoded_sentence st)) \<and>
       (k = 0 \<longleftrightarrow> stop_condition st) \<and>
       sampling_loop g m st = run_body g m k st \<and>
       (\<forall>j<k. \<forall>s. run_body g m j st = Inr s \<longrightarrow> \<not> stop_condition s) \<and>
       (\<forall>s. run_body g m k st = Inr s \<longrightarrow>
          stop_condition s \<and> length (decoded_sentence s) = length (decoded_sentence st) + k)"
proof (induction g m st rule: sampling_loop.induct)
  case (1 g m st)
  show ?case
  proof (cases "stop_condition st")
    case True
    then show ?thesis by (intro exI [of _ 0]) simp
  next
    case False
    show ?thesis
    proof (cases "loop_body g m st")
      case (Inl e)
      with False show ?thesis by (intro exI [of _ 1]) simp
    next
      case (Inr st')
      from "1.IH" [OF False Inr] obtain k where
        k: "k \<le> Suc (max_decoder_seq_length g - length (decoded_sentence st'))" and
        k0: "k = 0 \<longleftrightarrow> stop_condition st'" and
        run: "sampling_loop g m st' = run_body g m k st'" and
        before: "\<forall>j<k. \<forall>s. run_body g m j st' = Inr s \<longrightarrow> \<not> stop_condition s" and
        final: "\<forall>s. run_body g m k st' = Inr s \<longrightarrow>
          stop_condition s \<and> length (decoded_sentence s) = length (decoded_sentence st') + k"
        by blast
      from loop_body_Inr [OF Inr] False have
        len: "length (decoded_sentence st') = Suc (length (decoded_sentence st))" and
        cap: "\<not> stop_condition st' \<Longrightarrow>
                Suc (length (decoded_sentence st)) \<le> max_decoder_seq_length g"
        by auto
      have b: "Suc k \<le> Suc (max_decoder_seq_length g - length (decoded_sentence st))"
      proof (cases "stop_condition st'")
        case True
        with k0 show ?thesis by simp
      next
        case False
        from cap [OF False] k show ?thesis by (simp add: len)
      qed
      have "\<forall>j<Suc k. \<forall>s. run_body g m j st = Inr s \<longrightarrow> \<not> stop_condition s"
      proof (intro allI impI)
        fix j s assume j: "j < Suc k" and s: "run_body g m j st = Inr s"
        show "\<not> stop_condition s"
        proof (cases j)
          case 0
          with s False show ?thesis by simp
        next
          case (Suc j')
          with j s before Inr show ?thesis by simp
        qed
      qed
      with b run final False Inr show ?thesis
        by (intro exI [of _ "Suc k"]) (simp add: len)
    qed
  qed
qed

lemma length_lstm_outputs: "length (fst (lstm cell xs s)) = length xs"
  by (induction xs arbitrary: s) (simp_all add: Let_def case_prod_unfold)

lemma first_max_less: "v \<noteq> [] \<Longrightarrow> first_max v < length v"
  by (induction v rule: first_max.induct) (simp_all add: Let_def)

lemma run_body_length:
  "run_body g m j st = Inr s \<Longrightarrow> length (decoded_sentence s) = length (decoded_sentence st) + j"
proof (induction j arbitrary: st)
  case 0
  then show ?case by simp
next
  case (Suc j)
  from Suc.prems obtain st' where b: "loop_body g m st = Inr st'"
    and r: "run_body g m j st' = Inr s"
    by (auto simp: and_then_Inr_iff)
  from loop_body_Inr [OF b] have "length (decoded_sentence st') = Suc (length (decoded_sentence st))"
    by auto
  with Suc.IH [OF r] show ?case by simp
qed

lemma initial_state_Inr:
  assumes "initial_state g m input_seq = Inr st0"
  shows "\<exists>k. map_of (target_token_index g) TAB = Some k \<and> k < num_decoder_tokens g \<and>
           st0 = \<lparr>target_seq = [(replicate (num_decoder_tokens g) 0)[k := 1]],
                  states_value = encoder_model m input_seq,
                  stop_condition = False, decoded_sentence = []\<rparr>"
  using assms
  by (auto simp: initial_state_def Let_def and_then_Inr_iff lookup_Inr_iff single_token_seq_Inr)

lemma encoder_states_pair:
  "\<exists>h c. encoder_states m xs = [h, c] \<and>
     (h, c) = snd (lstm (encoder m) xs (replicate latent_dim 0, replicate latent_dim 0))"
  by (simp add: encoder_states_def split: prod.splits)

text \<open>
  With the vocabularies of a loaded corpus and a dense layer of \<open>num_decoder_tokens\<close>
  units, no statement of \<open>decode_sequence\<close> raises.
\<close>

lemma loop_body_ok:
  assumes wl: "well_loaded c" and wi: "well_indexed c g"
    and dense: "dense_units m (num_decoder_tokens g)"
    and st: "target_seq st \<noteq> []" "length (states_value st) = 2"
  shows "\<exists>st'. loop_body g m st = Inr st'"
proof -
  from st(2) obtain h0 c0 where s: "states_value st = [h0, c0]"
    by (cases "states_value st"; cases "tl (states_value st)") auto
  obtain outs h c where l: "lstm (decoder_lstm m) (target_seq st) (h0, c0) = (outs, h, c)"
    by (cases "lstm (decoder_lstm m) (target_seq st) (h0, c0)") auto
  from length_lstm_outputs [of "decoder_lstm m" "target_seq st" "(h0, c0)"] l st(1)
  have outs: "outs \<noteq> []" by auto
  let ?v = "last (map (decoder_dense m) outs)"
  have dm: "decoder_model m (target_seq st) (states_value st) = Inr (map (decoder_dense m) outs, h, c)"
    by (simp add: decoder_model_def s l)
  from target_index_ex [OF wl wi markers_in_target(1) [OF wl wi]]
  have n0: "0 < num_decoder_tokens g" by auto
  from outs dense have len: "length ?v = num_decoder_tokens g"
    by (simp add: last_map dense_units_def)
  with n0 have v: "?v \<noteq> []" by auto
  from first_max_less [OF v] len have tok: "first_max ?v < num_decoder_tokens g" by simp
  from reverse_target_lookup [OF wl wi tok]
  have ch: "lookup (reverse_target_char_index g) (first_max ?v)
    = Inr (target_characters g ! first_max ?v)"
    by (simp add: lookup_Inr_iff)
  show ?thesis
    using outs v tok
    by (simp add: loop_body_def dm argmax_def ch Let_def single_token_seq_def del: last_map)
qed

lemma sampling_loop_ok:
  "well_loaded c \<Longrightarrow> well_indexed c g \<Longrightarrow> dense_units m (num_decoder_tokens g) \<Longrightarrow>
   target_seq st \<noteq> [] \<Longrightarrow> length (states_value st) = 2 \<Longrightarrow>
   \<exists>st'. sampling_loop g m st = Inr st'"
proof (induction g m st rule: sampling_loop.induct)
  case (1 g m st)
  show ?case
  proof (cases "stop_condition st")
    case True
    then show ?thesis by simp
  next
    case False
    from loop_body_ok [OF "1.prems"] obtain st1 where
      b: "loop_body g m st = Inr st1" by blast
    from loop_body_Inr [OF b] have "target_seq st1 \<noteq> []" "length (states_value st1) = 2"
      by auto
    from "1.IH" [OF False b "1.prems"(1-3) this] b False show ?thesis by simp
  qed
qed

text \<open>
  What the loop appends: at least one character, no end marker before the last one, and
  the last one is the end marker unless the cap was passed.
\<close>

lemma sampling_loop_decoded:
  "sampling_loop g m st = Inr st' \<Longrightarrow> \<not> stop_condition st \<Longrightarrow>
   length (decoded_sentence st) \<le> max_decoder_seq_length g \<Longrightarrow>
   \<exists>s. decoded_sentence st' = decoded_sentence st @ s \<and> s \<noteq> [] \<and>
       NEWLINE \<notin> set (butlast s) \<and>
       length (decoded_sentence st') \<le> max_decoder_seq_length g + 1 \<and>
       (last s = NEWLINE \<or> length (decoded_sentence st') = max_decoder_seq_length g + 1)"
proof (induction g m st rule: sampling_loop.induct)
  case (1 g m st)
  from "1.prems"(1,2) obtain st1 where b: "loop_body g m st = Inr st1"
    and rest: "sampling_loop g m st1 = Inr st'"
    by (cases "loop_body g m st") auto
  from loop_body_Inr [OF b] "1.prems"(2) obtain ch where
    dec: "decoded_sentence st1 = decoded_sentence st @ [ch]" and
    stop: "stop_condition st1 \<longleftrightarrow>
      ch = NEWLINE \<or> max_decoder_seq_length g < Suc (length (decoded_sentence st))"
    by auto
  show ?case
  proof (cases "stop_condition st1")
    case True
    with rest have "st' = st1" by simp
    with True stop dec "1.prems"(3) show ?thesis
      by (intro exI [of _ "[ch]"]) auto
  next
    case False
    with stop have ch: "ch \<noteq> NEWLINE"
      and len: "length (decoded_sentence st1) \<le> max_decoder_seq_length g"
      by (auto simp: dec)
    from "1.IH" [OF "1.prems"(2) b rest False len] obtain s where
      s: "decoded_sentence st' = decoded_sentence st1 @ s" "s \<noteq> []"
        "NEWLINE \<notin> set (butlast s)"
        "length (decoded_sentence st') \<le> max_decoder_seq_length g + 1"
        "last s = NEWLINE \<or> length (decoded_sentence st') = max_decoder_seq_length g + 1"
      by blast
    with ch dec show ?thesis
      by (intro exI [of _ "ch # s"]) auto
  qed
qed

section \<open>Properties of the layers\<close>

lemma lstm_Cons:
  "lstm cell (x # xs) s =
     (fst (cell x s) # fst (lstm cell xs (cell x s)), snd (lstm cell xs (cell x s)))"
  by (simp add: Let_def case_prod_unfold)

lemma decoder_model_single:
  "decoder_model m [x] [h, c] =
     Inr ([decoder_dense m (fst (decoder_lstm m x (h, c)))],
          fst (decoder_lstm m x (h, c)), snd (decoder_lstm m x (h, c)))"
  by (simp add: decoder_model_def Let_def case_prod_unfold)

lemma stepwise_decoder_eq:
  "stepwise_decoder m [h, c] xs =
     Inr (map (decoder_dense m) (fst (lstm (decoder_lstm m) xs (h, c))))"
proof (induction xs arbitrary: h c)
  case Nil
  show ?case by simp
next
  case (Cons x xs)
  obtain h' c' where s: "decoder_lstm m x (h, c) = (h', c')"
    by (cases "decoder_lstm m x (h, c)")
  have "stepwise_decoder m [h, c] (x # xs) =
      and_then (stepwise_decoder m [h', c'] xs) (\<lambda>rest. Inr (decoder_dense m h' # rest))"
    by (simp add: decoder_model_single s del: lstm.simps)
  also have "\<dots> = Inr (decoder_dense m h' #
      map (decoder_dense m) (fst (lstm (decoder_lstm m) xs (h', c'))))"
    by (simp add: Cons.IH)
  also have "\<dots> = Inr (map (decoder_dense m) (fst (lstm (decoder_lstm m) (x # xs) (h, c))))"
    by (simp add: lstm_Cons s del: lstm.simps)
  finally show ?case .
qed

lemma lstm_final_units:
  assumes "lstm_units cell n"
  shows "length (fst s) = n \<Longrightarrow> length (snd s) = n \<Longrightarrow>
         length (fst (snd (lstm cell xs s))) = n \<and> length (snd (snd (lstm cell xs s))) = n"
proof (induction xs arbitrary: s)
  case Nil
  then show ?case by simp
next
  case (Cons x xs)
  from assms Cons.prems have "length (fst (cell x s)) = n" "length (snd (cell x s)) = n"
    by (cases s; simp add: lstm_units_def)+
  from Cons.IH [OF this] show ?case by (simp add: lstm_Cons del: lstm.simps)
qed

lemma encoder_states_units:
  assumes "lstm_units (encoder m) latent_dim"
  shows "\<exists>h c. encoder_states m xs = [h, c] \<and> length h = latent_dim \<and> length c = latent_dim"
proof -
  from encoder_states_pair [of m xs] obtain h c where
    hc: "encoder_states m xs = [h, c]"
      "(h, c) = snd (lstm (encoder m) xs (replicate latent_dim 0, replicate latent_dim 0))"
    by blast
  from lstm_final_units [OF assms, of "(replicate latent_dim 0, replicate latent_dim 0)" xs]
  have "length h = latent_dim \<and> length c = latent_dim"
    by (simp add: hc(2) [symmetric])
  with hc(1) show ?thesis by blast
qed

text \<open>The states that the loop carries stay two vectors of \<open>latent_dim\<close> entries.\<close>

lemma run_body_states:
  assumes dec: "lstm_units (decoder_lstm m) latent_dim"
    and st: "\<exists>h c. states_value st = [h, c] \<and> length h = latent_dim \<and> length c = latent_dim"
  shows "run_body g m j st = Inr s \<Longrightarrow>
         \<exists>h c. states_value s = [h, c] \<and> length h = latent_dim \<and> length c = latent_dim"
proof (induction j arbitrary: s)
  case 0
  with st show ?case by simp
next
  case (Suc j)
  from Suc.prems obtain s1 where r: "run_body g m j st = Inr s1"
    and b: "loop_body g m s1 = Inr s"
    unfolding run_body_Suc by (auto simp: and_then_Inr_iff)
  from Suc.IH [OF r] obtain h0 c0 where
    s1: "states_value s1 = [h0, c0]" "length h0 = latent_dim" "length c0 = latent_dim"
    by blast
  from loop_body_Inr [OF b] obtain out h c where
    dm: "decoder_model m (target_seq s1) (states_value s1) = Inr (out, h, c)"
    and s: "states_value s = [h, c]"
    by auto
  from decoder_model_Inr [OF dm] s1(1)
  have "(h, c) = snd (lstm (decoder_lstm m) (target_seq s1) (h0, c0))" by auto
  with lstm_final_units [OF dec, of "(h0, c0)" "target_seq s1"] s1(2,3)
  have "length h = latent_dim \<and> length c = latent_dim"
    by (metis fst_conv snd_conv)
  with s show ?case by blast
qed

section \<open>The loop against the step-by-step description\<close>

lemma first_max_props:
  "v \<noteq> [] \<Longrightarrow>
   first_max v < length v \<and> (\<forall>j<length v. v ! j \<le> v ! first_max v) \<and>
   (\<forall>j<first_max v. v ! j < v ! first_max v)"
proof (induction v rule: first_max.induct)
  case 1
  then show ?case by simp
next
  case (2 x)
  then show ?case by simp
next
  case (3 x y ys)
  let ?r = "y # ys" and ?j = "first_max (y # ys)"
  from "3.IH" have IH: "?j < length ?r" "\<forall>i<length ?r. ?r ! i \<le> ?r ! ?j"
    "\<forall>i<?j. ?r ! i < ?r ! ?j"
    by simp_all
  show ?case
  proof (cases "?r ! ?j \<le> x")
    case True
    then have f: "first_max (x # ?r) = 0" by simp
    have "\<forall>i<length (x # ?r). (x # ?r) ! i \<le> x"
    proof (intro allI impI)
      fix i assume "i < length (x # ?r)"
      then show "(x # ?r) ! i \<le> x"
        using IH(2) True by (cases i) (auto intro: order_trans)
    qed
    then show ?thesis unfolding f by simp
  next
    case False
    then have f: "first_max (x # ?r) = Suc ?j" by simp
    have a: "\<forall>i<length (x # ?r). (x # ?r) ! i \<le> ?r ! ?j"
    proof (intro allI impI)
      fix i assume "i < length (x # ?r)"
      then show "(x # ?r) ! i \<le> ?r ! ?j"
        using IH(2) False by (cases i) auto
    qed
    have b: "\<forall>i<Suc ?j. (x # ?r) ! i < ?r ! ?j"
    proof (intro allI impI)
      fix i assume "i < Suc ?j"
      then show "(x # ?r) ! i < ?r ! ?j"
        using IH(3) False by (cases i) auto
    qed
    from IH(1) a b show ?thesis unfolding f by simp
  qed
qed

lemma greedy_choice_first_max:
  assumes "v \<noteq> []"
  shows "greedy_choice v = first_max v"
  unfolding greedy_choice_def
proof (rule Least_equality)
  from first_max_props [OF assms]
  show "first_max v < length v \<and> (\<forall>j<length v. v ! j \<le> v ! first_max v)" by blast
next
  fix i assume i: "i < length v \<and> (\<forall>j<length v. v ! j \<le> v ! i)"
  show "first_max v \<le> i"
  proof (rule ccontr)
    assume "\<not> first_max v \<le> i"
    then have "i < first_max v" by simp
    with first_max_props [OF assms] have "v ! i < v ! first_max v" by blast
    moreover from i first_max_props [OF assms] have "v ! first_max v \<le> v ! i" by blast
    ultimately show False by simp
  qed
qed

lemma start_token_lookup:
  assumes "well_loaded c" and "well_indexed c g"
  shows "map_of (target_token_index g) TAB = Some (start_token g)"
    and "start_token g < num_decoder_tokens g"
proof -
  from target_index_ex [OF assms markers_in_target(1) [OF assms]] obtain k where
    k: "k < num_decoder_tokens g" "map_of (target_token_index g) TAB = Some k" by blast
  from assms(2) have n: "num_decoder_tokens g = length (target_characters g)"
    by (simp add: well_indexed_def)
  from k target_index_iff [OF assms, of TAB k]
  have P: "k < length (target_characters g) \<and> target_characters g ! k = TAB"
    by (simp add: n)
  have "start_token g = k"
    unfolding start_token_def
  proof (rule the_equality)
    show "k < length (target_characters g) \<and> target_characters g ! k = TAB" by (rule P)
  next
    fix k' assume "k' < length (target_characters g) \<and> target_characters g ! k' = TAB"
    with P vocab_chars(5) [OF assms] show "k' = k"
      by (metis nth_eq_iff_index_eq)
  qed
  with k show "map_of (target_token_index g) TAB = Some (start_token g)"
    and "start_token g < num_decoder_tokens g" by simp_all
qed

lemma greedy_run_token:
  assumes "well_loaded c" and "well_indexed c g" and "dense_units m (num_decoder_tokens g)"
  shows "fst (greedy_run g m x k) < num_decoder_tokens g"
proof (cases k)
  case 0
  with start_token_lookup(2) [OF assms(1,2)] show ?thesis by simp
next
  case (Suc k')
  obtain tok s where r: "greedy_run g m x k' = (tok, s)" by (cases "greedy_run g m x k'")
  let ?v = "decoder_dense m (fst (decoder_lstm m (one_hot (num_decoder_tokens g) tok) s))"
  from assms(3) have len: "length ?v = num_decoder_tokens g" by (simp add: dense_units_def)
  from start_token_lookup(2) [OF assms(1,2)] have "0 < num_decoder_tokens g" by simp
  with len have v: "?v \<noteq> []" by auto
  from first_max_props [OF v] len have "greedy_choice ?v < num_decoder_tokens g"
    by (simp add: greedy_choice_first_max [OF v])
  then show ?thesis by (simp add: Suc r Let_def)
qed

lemma greedy_initial:
  assumes "well_loaded c" and "well_indexed c g"
  shows "initial_state g m x = Inr (greedy_state g m x 0)"
proof -
  from encoder_states_pair [of m x] obtain h c where
    hc: "encoder_states m x = [h, c]"
      "(h, c) = snd (lstm (encoder m) x (replicate latent_dim 0, replicate latent_dim 0))"
    by blast
  from hc(2) have "fst (snd (greedy_run g m x 0)) = h" "snd (snd (greedy_run g m x 0)) = c"
    by (simp_all add: hc(2) [symmetric])
  with start_token_lookup [OF assms] hc(1) show ?thesis
    by (simp add: initial_state_def encoder_model_def lookup_def single_token_seq_def
        greedy_state_def one_hot_def)
qed

lemma greedy_step:
  assumes wl: "well_loaded c" and wi: "well_indexed c g"
    and dense: "dense_units m (num_decoder_tokens g)"
    and run: "\<not> stop_condition (greedy_state g m x k)"
  shows "loop_body g m (greedy_state g m x k) = Inr (greedy_state g m x (Suc k))"
proof -
  obtain tok h c where r: "greedy_run g m x k = (tok, h, c)"
    by (cases "greedy_run g m x k") auto
  let ?n = "num_decoder_tokens g"
  obtain h' c' where s': "decoder_lstm m (one_hot ?n tok) (h, c) = (h', c')"
    by (cases "decoder_lstm m (one_hot ?n tok) (h, c)")
  let ?v = "decoder_dense m h'"
  have r': "greedy_run g m x (Suc k) = (greedy_choice ?v, h', c')"
    by (simp add: r s')
  from dense have len: "length ?v = ?n" by (simp add: dense_units_def)
  from greedy_run_token [OF wl wi dense, of x "Suc k"] have tok': "greedy_choice ?v < ?n"
    by (simp only: r' fst_conv)
  with len have v: "?v \<noteq> []" by auto
  note fm = greedy_choice_first_max [OF v]
  have dm: "decoder_model m (target_seq (greedy_state g m x k))
      (states_value (greedy_state g m x k)) = Inr ([?v], h', c')"
    by (simp add: greedy_state_def r decoder_model_single s')
  have ch: "lookup (reverse_target_char_index g) (greedy_choice ?v)
      = Inr (greedy_char g m x (Suc k))"
    using reverse_target_lookup [OF wl wi tok']
    by (simp add: lookup_Inr_iff greedy_char_def r' del: greedy_run.simps)
  have disj: "(if P then True else Q) = (P \<or> Q)" for P Q by simp
  have dec: "decoded_sentence (greedy_state g m x k) @ [greedy_char g m x (Suc k)]
      = decoded_sentence (greedy_state g m x (Suc k))"
    by (simp add: greedy_state_def del: greedy_run.simps)
  have len_dec: "length (decoded_sentence (greedy_state g m x k)) = k"
    by (simp add: greedy_state_def)
  have stop: "stop_condition (greedy_state g m x (Suc k)) \<longleftrightarrow>
      greedy_char g m x (Suc k) = NEWLINE \<or> max_decoder_seq_length g < Suc k"
    by (simp add: greedy_state_def greedy_stop_def del: greedy_run.simps)
  have "loop_body g m (greedy_state g m x k) =
      Inr \<lparr>target_seq = [(replicate ?n 0)[greedy_choice ?v := 1]],
           states_value = [h', c'],
           stop_condition = (greedy_char g m x (Suc k) = NEWLINE \<or>
              max_decoder_seq_length g < Suc k),
           decoded_sentence = decoded_sentence (greedy_state g m x k) @ [greedy_char g m x (Suc k)]\<rparr>"
    using v tok' run
    by (simp add: loop_body_def dm argmax_def ch Let_def single_token_seq_def fm [symmetric]
        len_dec disj del: greedy_run.simps)
  also have "\<dots> = Inr (greedy_state g m x (Suc k))"
    unfolding dec
    by (simp add: greedy_state_def r' one_hot_def greedy_stop_def del: greedy_run.simps)
  finally show ?thesis .
qed

lemma greedy_steps_props:
  "0 < greedy_steps g m x" "greedy_stop g m x (greedy_steps g m x)"
  "greedy_steps g m x \<le> max_decoder_seq_length g + 1"
  "j < greedy_steps g m x \<Longrightarrow> \<not> (0 < j \<and> greedy_stop g m x j)"
proof -
  let ?P = "\<lambda>k. 0 < k \<and> greedy_stop g m x k"
  have ex: "?P (max_decoder_seq_length g + 1)" by (simp add: greedy_stop_def)
  from LeastI [of ?P, OF ex]
  show "0 < greedy_steps g m x" "greedy_stop g m x (greedy_steps g m x)"
    by (simp_all add: greedy_steps_def)
  from Least_le [of ?P, OF ex] show "greedy_steps g m x \<le> max_decoder_seq_length g + 1"
    by (simp add: greedy_steps_def)
  assume "j < greedy_steps g m x"
  then show "\<not> ?P j" unfolding greedy_steps_def by (rule not_less_Least)
qed

lemma greedy_loop:
  assumes wl: "well_loaded c" and wi: "well_indexed c g"
    and dense: "dense_units m (num_decoder_tokens g)"
  shows "k \<le> greedy_steps g m x \<Longrightarrow>
         sampling_loop g m (greedy_state g m x k) = Inr (greedy_state g m x (greedy_steps g m x))"
proof (induction "greedy_steps g m x - k" arbitrary: k)
  case 0
  then have k: "k = greedy_steps g m x" by simp
  have "stop_condition (greedy_state g m x (greedy_steps g m x))"
    using greedy_steps_props(1,2) [of g m x] by (simp add: greedy_state_def)
  then show ?case unfolding k by simp
next
  case (Suc d)
  then have lt: "k < greedy_steps g m x" by simp
  from greedy_steps_props(4) [OF lt] have run: "\<not> stop_condition (greedy_state g m x k)"
    by (simp add: greedy_state_def)
  from Suc.hyps(2) lt have "d = greedy_steps g m x - Suc k" "Suc k \<le> greedy_steps g m x"
    by simp_all
  from Suc.hyps(1) [OF this]
  have "sampling_loop g m (greedy_state g m x (Suc k))
    = Inr (greedy_state g m x (greedy_steps g m x))" .
  with run greedy_step [OF wl wi dense run] show ?case
    by (subst sampling_loop.simps) simp
qed

text \<open>
  With the vocabularies of a loaded corpus and a dense layer of \<open>num_decoder_tokens\<close>
  units, the loop body can be run any number of times from a state with one token and
  two states.
\<close>

lemma run_body_ok:
  assumes wl: "well_loaded c" and wi: "well_indexed c g"
    and dense: "dense_units m (num_decoder_tokens g)"
    and st: "\<exists>x. target_seq st = [x]" "length (states_value st) = 2"
  shows "\<exists>s x. run_body g m j st = Inr s \<and> target_seq s = [x] \<and> length (states_value s) = 2"
proof (induction j)
  case 0
  with st show ?case by auto
next
  case (Suc j)
  then obtain s x where s: "run_body g m j st = Inr s" "target_seq s = [x]"
    "length (states_value s) = 2" by blast
  from s(2) have "target_seq s \<noteq> []" by simp
  from loop_body_ok [OF wl wi dense this s(3)] obtain s' where b: "loop_body g m s = Inr s'"
    by blast
  from loop_body_Inr [OF b] have "\<exists>x. target_seq s' = [x]" "length (states_value s') = 2"
    by auto
  moreover have "run_body g m (Suc j) st = Inr s'"
    unfolding run_body_Suc by (simp add: s(1) b)
  ultimately show ?case by blast
qed

section \<open>The small data file\<close>

lemma demo_load: "load_data demo_content = Inr demo_corpus"
proof -
  have "str_split NEWLINE demo_content = [[97, 32, 9, 98, 32, 9, 120], [99, 9, 100, 9, 121], []]"
    by (simp add: demo_content_def NEWLINE_def)
  then have p: "processed_lines demo_content = [[97, 32, 9, 98, 32, 9, 120], [99, 9, 100, 9, 121]]"
    by (simp add: processed_lines_def num_samples_def)
  have s1: "str_split TAB [97, 32, 9, 98, 32, 9, 120] = [[97, 32], [98, 32], [120]]"
    and s2: "str_split TAB [99, 9, 100, 9, 121] = [[99], [100], [121]]"
    by (simp_all add: TAB_def)
  show ?thesis
    unfolding load_data_def p
    by (simp add: read_line_def s1 s2 Let_def empty_corpus_def add_chars_eq demo_corpus_def
        TAB_def NEWLINE_def insert_commute)
qed

lemma demo_build: "build_vocab demo_corpus = Inr demo_vocab"
proof -
  have "input_charset demo_corpus = set [32, 97, 99]"
    and "target_charset demo_corpus = set [9, 10, 32, 98, 100]"
    by (simp_all add: demo_corpus_def)
  then have i: "sorted_list_of_set (input_charset demo_corpus) = [32, 97, 99]"
    and t: "sorted_list_of_set (target_charset demo_corpus) = [9, 10, 32, 98, 100]"
    by (simp_all only: sorted_list_of_set.idem_if_sorted_distinct sorted_simps distinct.simps)
      simp_all
  have e: "enumerate 0 [32, 97, 99 :: nat] = [(0, 32), (1, 97), (2, 99)]"
    and e': "enumerate 0 [9, 10, 32, 98, 100 :: nat] = [(0, 9), (1, 10), (2, 32), (3, 98), (4, 100)]"
    by (simp_all add: enumerate_eq_zip upt_rec)
  show ?thesis
    unfolding build_vocab_def Let_def i t
    by (simp add: py_max_def demo_corpus_def demo_vocab_def dict_def e e')
qed

lemma demo_vectorize: "\<exists>d. vectorize demo_corpus demo_vocab = Inr d"
proof (rule vectorize_ok)
  show "well_loaded demo_corpus" "well_indexed demo_corpus demo_vocab"
    using loaded_and_indexed [OF demo_load demo_build] .
  show "\<forall>x \<in> set (input_texts demo_corpus). x \<noteq> []" by (simp add: demo_corpus_def)
  show "SPACE \<in> set (input_characters demo_vocab)" "SPACE \<in> set (target_characters demo_vocab)"
    by (simp_all add: demo_vocab_def SPACE_def)
qed

lemma demo_dense_units: "dense_units demo_layers (num_decoder_tokens demo_vocab)"
  by (auto simp: dense_units_def demo_layers_def demo_vocab_def)

lemma stuck_dense_units: "dense_units stuck_layers (num_decoder_tokens demo_vocab)"
  by (simp add: dense_units_def stuck_layers_def demo_vocab_def)

lemma demo_decode: "decode_sequence demo_vocab demo_layers demo_input_seq = Inr [98, 10]"
  by code_simp

lemma stuck_decode: "decode_sequence demo_vocab stuck_layers demo_input_seq = Inr [98, 98, 98, 98, 98]"
  by code_simp

lemma demo_initial:
  "initial_state demo_vocab demo_layers demo_input_seq =
     Inr \<lparr>target_seq = [[1, 0, 0, 0, 0]],
          states_value = [replicate latent_dim 0, replicate latent_dim 0],
          stop_condition = False, decoded_sentence = []\<rparr>"
  by (simp add: initial_state_def encoder_model_def encoder_states_def demo_layers_def
      demo_input_seq_def demo_vocab_def lookup_def TAB_def single_token_seq_def eval_nat_numeral)

lemma counting_units:
  "lstm_units (encoder counting_layers) latent_dim"
  "lstm_units (decoder_lstm counting_layers) latent_dim"
  "dense_units counting_layers (num_decoder_tokens demo_vocab)"
  by (simp_all add: lstm_units_def dense_units_def counting_layers_def demo_vocab_def)

lemma counting_encoder:
  "snd (lstm (encoder counting_layers) demo_input_seq
          (replicate latent_dim 0, replicate latent_dim 0)) =
   (replicate latent_dim 2, replicate latent_dim 4)"
  by (simp add: counting_layers_def demo_input_seq_def)

lemma counting_initial:
  "initial_state demo_vocab counting_layers demo_input_seq =
     Inr \<lparr>target_seq = [[1, 0, 0, 0, 0]],
          states_value = [replicate latent_dim 2, replicate latent_dim 4],
          stop_condition = False, decoded_sentence = []\<rparr>"
  by (simp add: initial_state_def encoder_model_def encoder_states_def counting_layers_def
      demo_input_seq_def demo_vocab_def lookup_def TAB_def single_token_seq_def eval_nat_numeral)

lemma counting_decode:
  "decode_sequence demo_vocab counting_layers demo_input_seq = Inr [98, 10]"
  by code_simp

section \<open>The claims\<close>

text \<open>
  Claim C6. The loader processes exactly the first \<open>min(num_samples, len(lines) - 1)\<close>
  lines of the data file. If each of them splits on tab into exactly three fields, the
  first field is kept as the input text and the second, between the start and the end
  marker, as the target text, the third being dropped, and the character sets are the
  characters of the kept texts. If some processed line does not have exactly three
  fields, loading raises \<open>ValueError\<close>.
\<close>

theorem load_data_three_fields:
  "load_data content =
     (let lines = str_split NEWLINE content;
          ls = take (min num_samples (length lines - 1)) lines
      in if \<forall>line \<in> set ls. length (str_split TAB line) = 3
         then Inr \<lparr>input_texts = map (\<lambda>line. str_split TAB line ! 0) ls,
                   target_texts = map (\<lambda>line. [TAB] @ str_split TAB line ! 1 @ [NEWLINE]) ls,
                   input_charset = \<Union> (set ` set (map (\<lambda>line. str_split TAB line ! 0) ls)),
                   target_charset =
                     \<Union> (set ` set (map (\<lambda>line. [TAB] @ str_split TAB line ! 1 @ [NEWLINE]) ls))\<rparr>
         else Inl ValueError)"
proof -
  let ?ls = "processed_lines content"
  show ?thesis
  proof (cases "\<forall>line \<in> set ?ls. length (str_split TAB line) = 3")
    case True
    from read_lines_ok [OF True, of empty_corpus] True show ?thesis
      by (simp add: load_data_def processed_lines_def Let_def empty_corpus_def
          line_input_def [abs_def] line_target_def [abs_def])
  next
    case False
    then have "\<exists>line \<in> set ?ls. length (str_split TAB line) \<noteq> 3" by blast
    from read_lines_raises [OF this, of empty_corpus] False show ?thesis
      by (simp add: load_data_def processed_lines_def Let_def)
  qed
qed

theorem load_data_three_fields_witness:
  "load_data [97, 9, 98, 9, 99, 10, 100, 101, 9, 102, 9, 103, 10] =
     Inr \<lparr>input_texts = [[97], [100, 101]],
          target_texts = [[9, 98, 10], [9, 102, 10]],
          input_charset = {97, 100, 101},
          target_charset = {9, 10, 98, 102}\<rparr>
   \<and> load_data [97, 9, 98, 10, 10] = Inl ValueError"
  unfolding load_data_three_fields
  by (simp add: TAB_def NEWLINE_def num_samples_def Let_def insert_commute)

text \<open>
  Claim C10. Every processed target text is the second field of its line between the
  start marker and the end marker. Whenever the vocabularies are built, which needs at
  least one processed line, the target vocabulary contains both markers, the lookup
  \<open>target_token_index["\t"]\<close> of \<open>decode_sequence\<close> succeeds with an index below
  \<open>num_decoder_tokens\<close>, and \<open>reverse_target_char_index\<close> has an entry for every
  index below \<open>num_decoder_tokens\<close>.
\<close>

theorem markers_in_target_vocabulary:
  assumes "load_data content = Inr c" and "build_vocab c = Inr g"
  shows "(\<forall>y \<in> set (target_texts c). \<exists>s. y = [TAB] @ s @ [NEWLINE]) \<and>
         TAB \<in> set (target_characters g) \<and> NEWLINE \<in> set (target_characters g) \<and>
         (\<exists>k<num_decoder_tokens g. lookup (target_token_index g) TAB = Inr k) \<and>
         (\<forall>k<num_decoder_tokens g.
            lookup (reverse_target_char_index g) k = Inr (target_characters g ! k))"
proof -
  note W = loaded_and_indexed [OF assms]
  have "\<forall>y \<in> set (target_texts c). \<exists>s. y = [TAB] @ s @ [NEWLINE]"
    using W(1) by (simp add: well_loaded_def)
  moreover note markers_in_target [OF W]
  moreover have "\<exists>k<num_decoder_tokens g. lookup (target_token_index g) TAB = Inr k"
    using target_index_ex [OF W markers_in_target(1) [OF W]] by (simp add: lookup_Inr_iff)
  moreover have "\<forall>k<num_decoder_tokens g.
      lookup (reverse_target_char_index g) k = Inr (target_characters g ! k)"
    using reverse_target_lookup [OF W] by (simp add: lookup_Inr_iff)
  ultimately show ?thesis by blast
qed

theorem markers_in_target_vocabulary_witness:
  "load_data demo_content = Inr demo_corpus \<and> build_vocab demo_corpus = Inr demo_vocab \<and>
   TAB \<in> set (target_characters demo_vocab) \<and> NEWLINE \<in> set (target_characters demo_vocab) \<and>
   lookup (target_token_index demo_vocab) TAB = Inr 0 \<and>
   lookup (reverse_target_char_index demo_vocab) 4 = Inr 100"
proof -
  from markers_in_target_vocabulary [OF demo_load demo_build]
  have "TAB \<in> set (target_characters demo_vocab)"
    and "NEWLINE \<in> set (target_characters demo_vocab)"
    and "lookup (reverse_target_char_index demo_vocab) 4 = Inr (target_characters demo_vocab ! 4)"
    by (simp_all add: demo_vocab_def)
  moreover have "lookup (target_token_index demo_vocab) TAB = Inr 0"
    by (simp add: demo_vocab_def lookup_def TAB_def)
  ultimately show ?thesis
    using demo_load demo_build by (simp add: demo_vocab_def)
qed

text \<open>
  Claim C4. Each vocabulary is the sorted list of the distinct characters that occur in
  the texts of its side. Each token index has exactly the characters of its vocabulary as
  keys and maps them one-to-one onto \<open>0 .. n - 1\<close>, a character to its position in the
  sorted list. Every vector along the token axis of \<open>encoder_input_data\<close> has
  \<open>num_encoder_tokens\<close> entries, and every such vector of the two decoder arrays has
  \<open>num_decoder_tokens\<close> entries.
\<close>

theorem vocabulary_index:
  assumes "load_data content = Inr c" and "build_vocab c = Inr g"
  shows "sorted (input_characters g) \<and> distinct (input_characters g) \<and>
         set (input_characters g) = \<Union> (set ` set (input_texts c)) \<and>
         sorted (target_characters g) \<and> distinct (target_characters g) \<and>
         set (target_characters g) = \<Union> (set ` set (target_texts c)) \<and>
         num_encoder_tokens g = length (input_characters g) \<and>
         num_decoder_tokens g = length (target_characters g) \<and>
         dom (map_of (input_token_index g)) = set (input_characters g) \<and>
         bij_betw (\<lambda>ch. the (map_of (input_token_index g) ch))
           (set (input_characters g)) {0..<num_encoder_tokens g} \<and>
         dom (map_of (target_token_index g)) = set (target_characters g) \<and>
         bij_betw (\<lambda>ch. the (map_of (target_token_index g) ch))
           (set (target_characters g)) {0..<num_decoder_tokens g} \<and>
         (\<forall>k<num_encoder_tokens g.
            lookup (input_token_index g) (input_characters g ! k) = Inr k) \<and>
         (\<forall>k<num_decoder_tokens g.
            lookup (target_token_index g) (target_characters g ! k) = Inr k) \<and>
         (\<forall>d i t. vectorize c g = Inr d \<longrightarrow>
            length (row (encoder_input_data d) i t) = num_encoder_tokens g \<and>
            length (row (decoder_input_data d) i t) = num_decoder_tokens g \<and>
            length (row (decoder_target_data d) i t) = num_decoder_tokens g)"
proof -
  note W = loaded_and_indexed [OF assms]
  note V = vocab_chars [OF W]
  from W(2) have n: "num_encoder_tokens g = length (input_characters g)"
      "num_decoder_tokens g = length (target_characters g)"
    and idx: "input_token_index g = zip (input_characters g) [0..<length (input_characters g)]"
      "target_token_index g = zip (target_characters g) [0..<length (target_characters g)]"
    by (simp_all add: well_indexed_def)
  have b1: "dom (map_of (input_token_index g)) = set (input_characters g)"
    and b2: "bij_betw (\<lambda>ch. the (map_of (input_token_index g) ch))
           (set (input_characters g)) {0..<num_encoder_tokens g}"
    using index_bij [OF V(2)] by (simp_all only: idx(1) n(1))
  have b3: "dom (map_of (target_token_index g)) = set (target_characters g)"
    and b4: "bij_betw (\<lambda>ch. the (map_of (target_token_index g) ch))
           (set (target_characters g)) {0..<num_decoder_tokens g}"
    using index_bij [OF V(5)] by (simp_all only: idx(2) n(2))
  have p1: "\<forall>k<num_encoder_tokens g.
            lookup (input_token_index g) (input_characters g ! k) = Inr k"
    by (simp add: lookup_Inr_iff input_index_iff [OF W])
  have p2: "\<forall>k<num_decoder_tokens g.
            lookup (target_token_index g) (target_characters g ! k) = Inr k"
    by (simp add: lookup_Inr_iff target_index_iff [OF W])
  have w: "\<forall>d i t. vectorize c g = Inr d \<longrightarrow>
            length (row (encoder_input_data d) i t) = num_encoder_tokens g \<and>
            length (row (decoder_input_data d) i t) = num_decoder_tokens g \<and>
            length (row (decoder_target_data d) i t) = num_decoder_tokens g"
    by (auto simp: length_row dest: vectorize_shapes)
  from V n b1 b2 b3 b4 p1 p2 w show ?thesis by blast
qed

theorem vocabulary_index_witness:
  "load_data demo_content = Inr demo_corpus \<and> build_vocab demo_corpus = Inr demo_vocab \<and>
   sorted (input_characters demo_vocab) \<and>
   set (target_characters demo_vocab) = \<Union> (set ` set (target_texts demo_corpus)) \<and>
   bij_betw (\<lambda>ch. the (map_of (target_token_index demo_vocab) ch)) {9, 10, 32, 98, 100} {0..<5} \<and>
   (\<exists>d. vectorize demo_corpus demo_vocab = Inr d \<and>
        length (row (encoder_input_data d) 0 0) = 3 \<and>
        length (row (decoder_target_data d) 1 2) = 5)"
proof -
  note T = vocabulary_index [OF demo_load demo_build]
  from demo_vectorize obtain d where d: "vectorize demo_corpus demo_vocab = Inr d" ..
  from T d have "length (row (encoder_input_data d) 0 0) = num_encoder_tokens demo_vocab"
    and "length (row (decoder_target_data d) 1 2) = num_decoder_tokens demo_vocab"
    by blast+
  with d have "\<exists>d. vectorize demo_corpus demo_vocab = Inr d \<and>
        length (row (encoder_input_data d) 0 0) = 3 \<and>
        length (row (decoder_target_data d) 1 2) = 5"
    by (auto simp: demo_vocab_def)
  moreover from T have "sorted (input_characters demo_vocab)"
    and "set (target_characters demo_vocab) = \<Union> (set ` set (target_texts demo_corpus))"
    and "bij_betw (\<lambda>ch. the (map_of (target_token_index demo_vocab) ch))
           (set (target_characters demo_vocab)) {0..<num_decoder_tokens demo_vocab}"
    by blast+
  moreover have "set (target_characters demo_vocab) = {9, 10, 32, 98, 100}"
    and "num_decoder_tokens demo_vocab = 5"
    by (simp_all add: demo_vocab_def)
  ultimately show ?thesis using demo_load demo_build by simp
qed

text \<open>
  Claim C5. Let the data file load, let every input text be non-empty (a target text
  always holds its two markers), and let the space character occur in the input texts and
  in the target texts. Then the data preparation completes, each of the three arrays has
  the shape (examples, longest text, vocabulary size), and every (example, timestep) slice
  is one-hot: at a timestep inside the text it is hot at the index of the character
  there, at a later timestep at the index of the space character. The text of
  \<open>decoder_target_data\<close> is the target text without its start character.
\<close>

theorem tensors_one_hot:
  assumes "load_data content = Inr c"
    and "\<forall>x \<in> set (input_texts c). x \<noteq> []"
    and "SPACE \<in> input_charset c" and "SPACE \<in> target_charset c"
  shows "\<exists>g d. prepare content = Inr (c, g, d) \<and>
     shape (encoder_input_data d) =
       (length (input_texts c), max_encoder_seq_length g, num_encoder_tokens g) \<and>
     shape (decoder_input_data d) =
       (length (input_texts c), max_decoder_seq_length g, num_decoder_tokens g) \<and>
     shape (decoder_target_data d) =
       (length (input_texts c), max_decoder_seq_length g, num_decoder_tokens g) \<and>
     (\<forall>i<length (input_texts c).
        (\<forall>t<max_encoder_seq_length g.
           \<exists>k. lookup (input_token_index g) (padded (input_texts c ! i) t) = Inr k \<and>
               one_hot_at (row (encoder_input_data d) i t) k) \<and>
        (\<forall>t<max_decoder_seq_length g.
           \<exists>k. lookup (target_token_index g) (padded (target_texts c ! i) t) = Inr k \<and>
               one_hot_at (row (decoder_input_data d) i t) k) \<and>
        (\<forall>t<max_decoder_seq_length g.
           \<exists>k. lookup (target_token_index g) (padded (tl (target_texts c ! i)) t) = Inr k \<and>
               one_hot_at (row (decoder_target_data d) i t) k))"
proof -
  note wl = load_data_well_loaded [OF assms(1)]
  from assms(3) wl have "input_texts c \<noteq> []" by (auto simp: well_loaded_def)
  moreover from this wl have "target_texts c \<noteq> []" by (auto simp: well_loaded_def)
  ultimately obtain g where g: "build_vocab c = Inr g" using build_vocab_ok by blast
  note wi = build_vocab_well_indexed [OF g]
  from assms(3,4) wi well_loaded_finite [OF wl]
  have sp: "SPACE \<in> set (input_characters g)" "SPACE \<in> set (target_characters g)"
    by (simp_all add: well_indexed_def)
  from vectorize_ok [OF wl wi assms(2) sp] obtain d where d: "vectorize c g = Inr d" ..
  have "prepare content = Inr (c, g, d)"
    using assms(1) g d by (simp add: prepare_Inr_iff)
  moreover note vectorize_shapes [OF d]
  moreover have "\<forall>i<length (input_texts c).
        (\<forall>t<max_encoder_seq_length g.
           \<exists>k. lookup (input_token_index g) (padded (input_texts c ! i) t) = Inr k \<and>
               one_hot_at (row (encoder_input_data d) i t) k) \<and>
        (\<forall>t<max_decoder_seq_length g.
           \<exists>k. lookup (target_token_index g) (padded (target_texts c ! i) t) = Inr k \<and>
               one_hot_at (row (decoder_input_data d) i t) k) \<and>
        (\<forall>t<max_decoder_seq_length g.
           \<exists>k. lookup (target_token_index g) (padded (tl (target_texts c ! i)) t) = Inr k \<and>
               one_hot_at (row (decoder_target_data d) i t) k)"
  proof (intro allI impI conjI)
    fix i t assume i: "i < length (input_texts c)"
    then have ne: "input_texts c ! i \<noteq> []" using assms(2) by simp
    note P = prepared_slices [OF wl wi d i]
    show "t < max_encoder_seq_length g \<Longrightarrow>
        \<exists>k. lookup (input_token_index g) (padded (input_texts c ! i) t) = Inr k \<and>
               one_hot_at (row (encoder_input_data d) i t) k"
      by (rule P(1) [OF ne])
    show "t < max_decoder_seq_length g \<Longrightarrow>
        \<exists>k. lookup (target_token_index g) (padded (target_texts c ! i) t) = Inr k \<and>
               one_hot_at (row (decoder_input_data d) i t) k"
      by (rule P(2))
    show "t < max_decoder_seq_length g \<Longrightarrow>
        \<exists>k. lookup (target_token_index g) (padded (tl (target_texts c ! i)) t) = Inr k \<and>
               one_hot_at (row (decoder_target_data d) i t) k"
      by (rule P(3))
  qed
  ultimately show ?thesis by blast
qed

theorem tensors_one_hot_witness:
  "load_data demo_content = Inr demo_corpus \<and>
   [] \<notin> set (input_texts demo_corpus) \<and>
   SPACE \<in> input_charset demo_corpus \<and> SPACE \<in> target_charset demo_corpus \<and>
   (\<exists>d. prepare demo_content = Inr (demo_corpus, demo_vocab, d) \<and>
        shape (encoder_input_data d) = (2, 2, 3) \<and>
        row (encoder_input_data d) 1 0 = [0, 0, 1] \<and>
        row (encoder_input_data d) 1 1 = [1, 0, 0] \<and>
        row (decoder_input_data d) 1 3 = [0, 0, 1, 0, 0] \<and>
        row (decoder_target_data d) 1 0 = [0, 0, 0, 0, 1])"
proof -
  have h: "\<forall>x \<in> set (input_texts demo_corpus). x \<noteq> []"
    "SPACE \<in> input_charset demo_corpus" "SPACE \<in> target_charset demo_corpus"
    by (simp_all add: demo_corpus_def SPACE_def)
  from tensors_one_hot [OF demo_load h] obtain g d where
    p: "prepare demo_content = Inr (demo_corpus, g, d)" and
    sh: "shape (encoder_input_data d) =
       (length (input_texts demo_corpus), max_encoder_seq_length g, num_encoder_tokens g)" and
    hot: "\<forall>i<length (input_texts demo_corpus).
        (\<forall>t<max_encoder_seq_length g.
           \<exists>k. lookup (input_token_index g) (padded (input_texts demo_corpus ! i) t) = Inr k \<and>
               one_hot_at (row (encoder_input_data d) i t) k) \<and>
        (\<forall>t<max_decoder_seq_length g.
           \<exists>k. lookup (target_token_index g) (padded (target_texts demo_corpus ! i) t) = Inr k \<and>
               one_hot_at (row (decoder_input_data d) i t) k) \<and>
        (\<forall>t<max_decoder_seq_length g.
           \<exists>k. lookup (target_token_index g) (padded (tl (target_texts demo_corpus ! i)) t) = Inr k \<and>
               one_hot_at (row (decoder_target_data d) i t) k)"
    by blast
  from p demo_build have g: "g = demo_vocab" by (simp add: prepare_Inr_iff)
  from p have v: "vectorize demo_corpus demo_vocab = Inr d" by (simp add: prepare_Inr_iff g)
  have L: "length (row (encoder_input_data d) i t) = 3"
    "length (row (decoder_input_data d) i t) = 5"
    "length (row (decoder_target_data d) i t) = 5" for i t
    using vectorize_shapes [OF v] by (simp_all add: length_row demo_vocab_def)
  have i1: "(1::nat) < length (input_texts demo_corpus)" by (simp add: demo_corpus_def)
  from hot i1 have
    a: "\<forall>t<2. \<exists>k. lookup (input_token_index demo_vocab) (padded (input_texts demo_corpus ! 1) t) = Inr k \<and>
               one_hot_at (row (encoder_input_data d) 1 t) k" and
    b: "\<forall>t<4. \<exists>k. lookup (target_token_index demo_vocab) (padded (target_texts demo_corpus ! 1) t) = Inr k \<and>
               one_hot_at (row (decoder_input_data d) 1 t) k" and
    c: "\<forall>t<4. \<exists>k. lookup (target_token_index demo_vocab) (padded (tl (target_texts demo_corpus ! 1)) t) = Inr k \<and>
               one_hot_at (row (decoder_target_data d) 1 t) k"
    unfolding g by (simp_all add: demo_vocab_def)
  from a [rule_format, of 0] L have r1: "row (encoder_input_data d) 1 0 = [0, 0, 1]"
    by (auto simp: demo_vocab_def demo_corpus_def padded_def lookup_def SPACE_def one_hot_at_def
        numeral_3_eq_3)
  from a [rule_format, of 1] L have r2: "row (encoder_input_data d) 1 1 = [1, 0, 0]"
    by (auto simp: demo_vocab_def demo_corpus_def padded_def lookup_def SPACE_def one_hot_at_def
        numeral_3_eq_3)
  from b [rule_format, of 3] L have r3: "row (decoder_input_data d) 1 3 = [0, 0, 1, 0, 0]"
    by (auto simp: demo_vocab_def demo_corpus_def padded_def lookup_def SPACE_def one_hot_at_def
        eval_nat_numeral)
  from c [rule_format, of 0] L have r4: "row (decoder_target_data d) 1 0 = [0, 0, 0, 0, 1]"
    by (auto simp: demo_vocab_def demo_corpus_def padded_def lookup_def SPACE_def one_hot_at_def
        eval_nat_numeral)
  from sh have "shape (encoder_input_data d) = (2, 2, 3)"
    by (simp add: g demo_vocab_def demo_corpus_def)
  moreover have "[] \<notin> set (input_texts demo_corpus)" by (simp add: demo_corpus_def)
  ultimately show ?thesis using p r1 r2 r3 r4 h(2,3) demo_load unfolding g by blast
qed

text \<open>
  Claim C3. In the arrays of a completed data preparation, for every example \<open>i\<close>
  and every timestep \<open>t\<close> with \<open>t \<le> max_decoder_seq_length - 2\<close>, the slice
  \<open>decoder_target_data[i, t]\<close> equals \<open>decoder_input_data[i, t + 1]\<close>. The start
  character is encoded at timestep 0 of the decoder input only, and the last timestep of
  the decoder target encodes the space padding character.
\<close>

theorem teacher_forcing_offset:
  assumes "prepare content = Inr (c, g, d)" and "i < length (input_texts c)"
  shows "(\<forall>t. t + 2 \<le> max_decoder_seq_length g \<longrightarrow>
            row (decoder_target_data d) i t = row (decoder_input_data d) i (t + 1)) \<and>
         (\<exists>k. lookup (target_token_index g) TAB = Inr k \<and>
              one_hot_at (row (decoder_input_data d) i 0) k) \<and>
         (\<exists>k. lookup (target_token_index g) SPACE = Inr k \<and>
              one_hot_at (row (decoder_target_data d) i (max_decoder_seq_length g - 1)) k)"
proof -
  let ?y = "target_texts c ! i"
  from assms(1) have l: "load_data content = Inr c" and b: "build_vocab c = Inr g"
    and v: "vectorize c g = Inr d"
    by (simp_all add: prepare_Inr_iff)
  note W = loaded_and_indexed [OF l b]
  note S = vectorize_shapes [OF v]
  from W(1) assms(2) have yin: "?y \<in> set (target_texts c)" by (simp add: well_loaded_def)
  note Y = well_loaded_target [OF W(1) yin]
  from W(2) yin have ylen: "length ?y \<le> max_decoder_seq_length g"
    by (simp add: well_indexed_def)
  from vectorize_result [OF v W(1) assms(2)] obtain kst where
    e2: "el (decoder_input_data d) (i, t, k) =
          (if length ?y \<le> t \<and> t < max_decoder_seq_length g \<and> k = kst then 1
           else if t < length ?y \<and> map_of (target_token_index g) (?y ! t) = Some k then 1
           else 0)" and
    e3: "el (decoder_target_data d) (i, t, k) =
          (if length ?y \<le> Suc t \<and> t < max_decoder_seq_length g \<and> k = kst then 1
           else if Suc t < length ?y \<and> map_of (target_token_index g) (?y ! Suc t) = Some k then 1
           else 0)" for t k
    by blast
  have shift: "row (decoder_target_data d) i t = row (decoder_input_data d) i (t + 1)"
    if "t + 2 \<le> max_decoder_seq_length g" for t
  proof (rule row_cong)
    show "snd (snd (shape (decoder_target_data d))) = snd (snd (shape (decoder_input_data d)))"
      by (simp add: S)
    fix k
    from that have "t < max_decoder_seq_length g" and "Suc t < max_decoder_seq_length g"
      by simp_all
    then show "el (decoder_target_data d) (i, t, k) = el (decoder_input_data d) (i, t + 1, k)"
      by (simp add: e2 e3)
  qed
  have m0: "0 < max_decoder_seq_length g" using Y(1) ylen by simp
  have "padded ?y 0 = TAB" using Y(1,2) by (auto simp: padded_def)
  with prepared_slices(2) [OF W v assms(2) m0]
  have start: "\<exists>k. lookup (target_token_index g) TAB = Inr k \<and>
              one_hot_at (row (decoder_input_data d) i 0) k"
    by simp
  have m1: "max_decoder_seq_length g - 1 < max_decoder_seq_length g" using m0 by simp
  have "\<not> max_decoder_seq_length g - 1 < length (tl ?y)"
    using ylen by (simp del: One_nat_def)
  then have "padded (tl ?y) (max_decoder_seq_length g - 1) = SPACE"
    unfolding padded_def by (rule if_not_P)
  with prepared_slices(3) [OF W v assms(2) m1]
  have tail: "\<exists>k. lookup (target_token_index g) SPACE = Inr k \<and>
              one_hot_at (row (decoder_target_data d) i (max_decoder_seq_length g - 1)) k"
    by simp
  from shift start tail show ?thesis by blast
qed

theorem teacher_forcing_offset_witness:
  "\<exists>d. prepare demo_content = Inr (demo_corpus, demo_vocab, d) \<and>
       (1::nat) < length (input_texts demo_corpus) \<and>
       (0::nat) + 2 \<le> max_decoder_seq_length demo_vocab \<and>
       row (decoder_target_data d) 1 0 = row (decoder_input_data d) 1 1 \<and>
       row (decoder_target_data d) 1 2 = row (decoder_input_data d) 1 3 \<and>
       lookup (target_token_index demo_vocab) TAB = Inr 0 \<and>
       one_hot_at (row (decoder_input_data d) 1 0) 0 \<and>
       one_hot_at (row (decoder_target_data d) 1 3) 2"
proof -
  from demo_vectorize obtain d where v: "vectorize demo_corpus demo_vocab = Inr d" ..
  with demo_load demo_build have p: "prepare demo_content = Inr (demo_corpus, demo_vocab, d)"
    by (simp add: prepare_Inr_iff)
  have i: "(1::nat) < length (input_texts demo_corpus)" by (simp add: demo_corpus_def)
  note T = teacher_forcing_offset [OF p i]
  have m: "max_decoder_seq_length demo_vocab = 4" by (simp add: demo_vocab_def)
  from T have "row (decoder_target_data d) 1 0 = row (decoder_input_data d) 1 (0 + 1)"
    and "row (decoder_target_data d) 1 2 = row (decoder_input_data d) 1 (2 + 1)"
    by (simp_all add: m)
  moreover from T have "one_hot_at (row (decoder_input_data d) 1 0) 0"
    and "one_hot_at (row (decoder_target_data d) 1 3) 2"
    by (auto simp: m demo_vocab_def lookup_def TAB_def SPACE_def)
  moreover have "lookup (target_token_index demo_vocab) TAB = Inr 0"
    by (simp add: demo_vocab_def lookup_def TAB_def)
  ultimately show ?thesis using p i m by auto
qed

text \<open>
  Claim C9. Every run of the loop body appends exactly one character to
  \<open>decoded_sentence\<close>. From the initial state of \<open>decode_sequence\<close> the loop runs
  its body \<open>k\<close> times with \<open>1 \<le> k \<le> max_decoder_seq_length + 1\<close>: no state before
  the \<open>k\<close>-th has the stop flag, the \<open>k\<close>-th has it, unless the body raised, and the
  result of \<open>decode_sequence\<close> is the sentence of that state. The recursion of
  \<open>sampling_loop\<close> itself is well-founded for every vocabulary, all layers and every
  state.
\<close>

theorem sampling_loop_bounded:
  assumes "initial_state g m input_seq = Inr st0"
  shows "(\<forall>s s'. loop_body g m s = Inr s' \<longrightarrow>
            (\<exists>ch. decoded_sentence s' = decoded_sentence s @ [ch])) \<and>
         (\<exists>k. 1 \<le> k \<and> k \<le> max_decoder_seq_length g + 1 \<and>
            sampling_loop g m st0 = run_body g m k st0 \<and>
            (\<forall>j<k. \<forall>s. run_body g m j st0 = Inr s \<longrightarrow>
               \<not> stop_condition s \<and> length (decoded_sentence s) = j) \<and>
            (\<forall>s. run_body g m k st0 = Inr s \<longrightarrow>
               stop_condition s \<and> length (decoded_sentence s) = k) \<and>
            decode_sequence g m input_seq =
              and_then (run_body g m k st0) (\<lambda>st. Inr (decoded_sentence st)))"
proof
  show "\<forall>s s'. loop_body g m s = Inr s' \<longrightarrow>
            (\<exists>ch. decoded_sentence s' = decoded_sentence s @ [ch])"
    using loop_body_Inr [of g m] by fastforce
  from initial_state_Inr [OF assms] have st0: "\<not> stop_condition st0" "decoded_sentence st0 = []"
    by auto
  from sampling_loop_run [of g st0 m] obtain k where
    k: "k \<le> Suc (max_decoder_seq_length g - length (decoded_sentence st0))"
      "k = 0 \<longleftrightarrow> stop_condition st0"
      "sampling_loop g m st0 = run_body g m k st0"
      "\<forall>j<k. \<forall>s. run_body g m j st0 = Inr s \<longrightarrow> \<not> stop_condition s"
      "\<forall>s. run_body g m k st0 = Inr s \<longrightarrow>
          stop_condition s \<and> length (decoded_sentence s) = length (decoded_sentence st0) + k"
    by blast
  have "decode_sequence g m input_seq =
      and_then (run_body g m k st0) (\<lambda>st. Inr (decoded_sentence st))"
    by (simp add: decode_sequence_def assms k(3) del: sampling_loop.simps)
  moreover have "\<forall>j<k. \<forall>s. run_body g m j st0 = Inr s \<longrightarrow>
               \<not> stop_condition s \<and> length (decoded_sentence s) = j"
    using k(4) run_body_length [of g m _ st0] st0(2) by auto
  ultimately show "\<exists>k. 1 \<le> k \<and> k \<le> max_decoder_seq_length g + 1 \<and>
            sampling_loop g m st0 = run_body g m k st0 \<and>
            (\<forall>j<k. \<forall>s. run_body g m j st0 = Inr s \<longrightarrow>
               \<not> stop_condition s \<and> length (decoded_sentence s) = j) \<and>
            (\<forall>s. run_body g m k st0 = Inr s \<longrightarrow>
               stop_condition s \<and> length (decoded_sentence s) = k) \<and>
            decode_sequence g m input_seq =
              and_then (run_body g m k st0) (\<lambda>st. Inr (decoded_sentence st))"
    using k(1,2,3,5) st0 by (intro exI [of _ k]) auto
qed

theorem sampling_loop_bounded_witness:
  "initial_state demo_vocab demo_layers demo_input_seq =
     Inr \<lparr>target_seq = [[1, 0, 0, 0, 0]],
          states_value = [replicate latent_dim 0, replicate latent_dim 0],
          stop_condition = False, decoded_sentence = []\<rparr> \<and>
   (\<exists>k. 1 \<le> k \<and> k \<le> 5 \<and>
      Inr [98, 10] =
        and_then (run_body demo_vocab demo_layers k
          \<lparr>target_seq = [[1, 0, 0, 0, 0]],
           states_value = [replicate latent_dim 0, replicate latent_dim 0],
           stop_condition = False, decoded_sentence = []\<rparr>) (\<lambda>st. Inr (decoded_sentence st)))"
proof -
  have "max_decoder_seq_length demo_vocab + 1 = 5" by (simp add: demo_vocab_def)
  with sampling_loop_bounded [OF demo_initial] demo_initial show ?thesis
    unfolding demo_decode by auto
qed

text \<open>
  Claim C1, as amended. With the vocabularies of a loaded data file and a dense layer
  of \<open>num_decoder_tokens\<close> units, \<open>decode_sequence\<close> returns, for every input
  sequence, a non-empty string of at most \<open>max_decoder_seq_length + 1\<close> characters
  that has no end marker before its last character; it ends with the end marker or has
  exactly \<open>max_decoder_seq_length + 1\<close> characters.
\<close>

theorem decode_sequence_result:
  assumes "load_data content = Inr c" and "build_vocab c = Inr g"
    and "dense_units m (num_decoder_tokens g)"
  shows "\<exists>s. decode_sequence g m input_seq = Inr s \<and> s \<noteq> [] \<and>
           NEWLINE \<notin> set (butlast s) \<and>
           length s \<le> max_decoder_seq_length g + 1 \<and>
           (last s = NEWLINE \<or> length s = max_decoder_seq_length g + 1)"
proof -
  note W = loaded_and_indexed [OF assms(1,2)]
  from target_index_ex [OF W markers_in_target(1) [OF W]] obtain k where
    k: "k < num_decoder_tokens g" "map_of (target_token_index g) TAB = Some k" by blast
  let ?st0 = "\<lparr>target_seq = [(replicate (num_decoder_tokens g) 0)[k := 1]],
                states_value = encoder_model m input_seq,
                stop_condition = False, decoded_sentence = []\<rparr>"
  have init: "initial_state g m input_seq = Inr ?st0"
    using k by (simp add: initial_state_def lookup_def single_token_seq_def)
  from encoder_states_pair [of m input_seq]
  have two: "length (states_value ?st0) = 2" by (auto simp: encoder_model_def)
  have "target_seq ?st0 \<noteq> []" by simp
  from sampling_loop_ok [OF W assms(3) this two] obtain st' where
    loop: "sampling_loop g m ?st0 = Inr st'" ..
  from sampling_loop_decoded [OF loop] obtain s where
    "decoded_sentence st' = s" "s \<noteq> []" "NEWLINE \<notin> set (butlast s)"
    "length (decoded_sentence st') \<le> max_decoder_seq_length g + 1"
    "last s = NEWLINE \<or> length (decoded_sentence st') = max_decoder_seq_length g + 1"
    by auto
  moreover have "decode_sequence g m input_seq = Inr (decoded_sentence st')"
    by (simp add: decode_sequence_def init loop del: sampling_loop.simps)
  ultimately show ?thesis by auto
qed

theorem decode_sequence_result_witness:
  "load_data demo_content = Inr demo_corpus \<and> build_vocab demo_corpus = Inr demo_vocab \<and>
   dense_units stuck_layers (num_decoder_tokens demo_vocab) \<and>
   decode_sequence demo_vocab stuck_layers demo_input_seq = Inr [98, 98, 98, 98, 98] \<and>
   length [98, 98, 98, 98, 98 :: nat] = max_decoder_seq_length demo_vocab + 1 \<and>
   decode_sequence demo_vocab demo_layers demo_input_seq = Inr [98, 10] \<and>
   last [98, 10] = NEWLINE \<and> length [98, 10 :: nat] \<le> max_decoder_seq_length demo_vocab + 1"
proof -
  from decode_sequence_result [OF demo_load demo_build stuck_dense_units, of demo_input_seq]
  have "length [98, 98, 98, 98, 98 :: nat] = max_decoder_seq_length demo_vocab + 1"
    unfolding stuck_decode by (auto simp: NEWLINE_def)
  moreover
  from decode_sequence_result [OF demo_load demo_build demo_dense_units, of demo_input_seq]
  have "last [98, 10] = NEWLINE" "length [98, 10 :: nat] \<le> max_decoder_seq_length demo_vocab + 1"
    unfolding demo_decode by (auto simp: demo_vocab_def)
  ultimately show ?thesis
    using demo_load demo_build stuck_dense_units stuck_decode demo_decode by simp
qed

text \<open>
  Claim C1, as stated, fails: with a decoder that never produces the end marker, the
  decoded string of the small data file has \<open>max_decoder_seq_length + 1\<close> characters,
  one more than the cap of the claim, and does not end with the end marker.
\<close>

theorem decode_sequence_length_counterexample:
  "load_data demo_content = Inr demo_corpus \<and> build_vocab demo_corpus = Inr demo_vocab \<and>
   decode_sequence demo_vocab stuck_layers demo_input_seq = Inr [98, 98, 98, 98, 98] \<and>
   last [98, 98, 98, 98, 98] \<noteq> NEWLINE \<and>
   max_decoder_seq_length demo_vocab < length [98, 98, 98, 98, 98 :: nat]"
  using demo_load demo_build stuck_decode by (simp add: NEWLINE_def demo_vocab_def)

text \<open>
  Claim C8. The sampling models are built from the layers of the training model: the
  encoder LSTM, the decoder LSTM and the dense softmax layer. Running the sampling
  decoder one timestep at a time over a target prefix, starting from the encoder states
  and carrying \<open>[h, c]\<close> forward, produces at every step the distribution that the
  training model produces at that timestep when it runs over the whole prefix.
\<close>

theorem stepwise_decoder_is_model:
  "stepwise_decoder m (encoder_model m encoder_inputs) decoder_inputs =
     model m encoder_inputs decoder_inputs"
proof -
  obtain h c where hc: "encoder_states m encoder_inputs = [h, c]"
    using encoder_states_pair [of m encoder_inputs] by blast
  have "model m encoder_inputs decoder_inputs =
      Inr (map (decoder_dense m) (fst (lstm (decoder_lstm m) decoder_inputs (h, c))))"
    by (simp add: model_def hc case_prod_unfold)
  with stepwise_decoder_eq [of m h c decoder_inputs] show ?thesis
    by (simp add: encoder_model_def hc)
qed

text \<open>
  Claim C7. Let the LSTM layers have \<open>latent_dim\<close> units, and let the vocabularies
  come from a loaded data file and the dense layer have \<open>num_decoder_tokens\<close> units.
  The encoder states are the last state \<open>(h, c)\<close> of the encoder LSTM run over the
  input sequence from the zero state: exactly two vectors, each of length
  \<open>latent_dim\<close>. The training model runs its decoder LSTM from this pair as initial
  state, and \<open>decode_sequence\<close> starts its loop with it. The sampling loop is some
  number of runs of its body, and the body can be run any number of times: the state it
  starts from holds one token \<open>x\<close> and two vectors \<open>[h, c]\<close> of length
  \<open>latent_dim\<close>, the decoder is called on them and returns the state of the decoder
  cell at \<open>x\<close> and \<open>(h, c)\<close>, and the next state of the loop holds exactly this
  returned pair.
\<close>

theorem decoder_state_threading:
  assumes "lstm_units (encoder m) latent_dim" and "lstm_units (decoder_lstm m) latent_dim"
    and "load_data content = Inr c" and "build_vocab c = Inr g"
    and "dense_units m (num_decoder_tokens g)"
  shows "\<exists>h0 c0 st0.
     snd (lstm (encoder m) input_seq (replicate latent_dim 0, replicate latent_dim 0)) = (h0, c0) \<and>
     encoder_states m input_seq = [h0, c0] \<and>
     length h0 = latent_dim \<and> length c0 = latent_dim \<and>
     model m input_seq decoder_inputs =
       Inr (map (decoder_dense m) (fst (lstm (decoder_lstm m) decoder_inputs (h0, c0)))) \<and>
     initial_state g m input_seq = Inr st0 \<and> states_value st0 = [h0, c0] \<and>
     (\<exists>k. 1 \<le> k \<and> k \<le> max_decoder_seq_length g + 1 \<and>
          sampling_loop g m st0 = run_body g m k st0) \<and>
     (\<forall>j. \<exists>s s' x h c.
        run_body g m j st0 = Inr s \<and> target_seq s = [x] \<and> states_value s = [h, c] \<and>
        length h = latent_dim \<and> length c = latent_dim \<and>
        decoder_model m (target_seq s) (states_value s) =
          Inr ([decoder_dense m (fst (decoder_lstm m x (h, c)))], decoder_lstm m x (h, c)) \<and>
        loop_body g m s = Inr s' \<and> run_body g m (Suc j) st0 = Inr s' \<and>
        states_value s' = [fst (decoder_lstm m x (h, c)), snd (decoder_lstm m x (h, c))])"
proof -
  note W = loaded_and_indexed [OF assms(3,4)]
  from encoder_states_pair [of m input_seq] obtain h0 c0 where
    hc: "encoder_states m input_seq = [h0, c0]"
      "(h0, c0) = snd (lstm (encoder m) input_seq (replicate latent_dim 0, replicate latent_dim 0))"
    by blast
  from lstm_final_units [OF assms(1), of "(replicate latent_dim 0, replicate latent_dim 0)" input_seq]
  have len0: "length h0 = latent_dim" "length c0 = latent_dim"
    by (simp_all add: hc(2) [symmetric])
  have mod: "model m input_seq decoder_inputs =
      Inr (map (decoder_dense m) (fst (lstm (decoder_lstm m) decoder_inputs (h0, c0))))"
    by (simp add: model_def hc(1) case_prod_unfold)
  let ?st0 = "\<lparr>target_seq = [(replicate (num_decoder_tokens g) 0)[start_token g := 1]],
                states_value = [h0, c0],
                stop_condition = False, decoded_sentence = []\<rparr>"
  have init: "initial_state g m input_seq = Inr ?st0"
    using start_token_lookup [OF W]
    by (simp add: initial_state_def encoder_model_def hc(1) lookup_def single_token_seq_def)
  have st0: "states_value ?st0 = [h0, c0]" by simp
  from sampling_loop_run [of g ?st0 m] obtain k where
    "k \<le> Suc (max_decoder_seq_length g - length (decoded_sentence ?st0))"
    "k = 0 \<longleftrightarrow> stop_condition ?st0"
    "sampling_loop g m ?st0 = run_body g m k ?st0"
    by blast
  then have loop: "\<exists>k. 1 \<le> k \<and> k \<le> max_decoder_seq_length g + 1 \<and>
      sampling_loop g m ?st0 = run_body g m k ?st0"
    by (intro exI [of _ k]) auto
  have inv0: "\<exists>h c. states_value ?st0 = [h, c] \<and> length h = latent_dim \<and> length c = latent_dim"
    using len0 by simp
  have steps: "\<exists>s s' x h c.
        run_body g m j ?st0 = Inr s \<and> target_seq s = [x] \<and> states_value s = [h, c] \<and>
        length h = latent_dim \<and> length c = latent_dim \<and>
        decoder_model m (target_seq s) (states_value s) =
          Inr ([decoder_dense m (fst (decoder_lstm m x (h, c)))], decoder_lstm m x (h, c)) \<and>
        loop_body g m s = Inr s' \<and> run_body g m (Suc j) ?st0 = Inr s' \<and>
        states_value s' = [fst (decoder_lstm m x (h, c)), snd (decoder_lstm m x (h, c))]" for j
  proof -
    have "\<exists>x. target_seq ?st0 = [x]" "length (states_value ?st0) = 2" by simp_all
    from run_body_ok [OF W assms(5) this, of j] obtain s x where
      s: "run_body g m j ?st0 = Inr s" "target_seq s = [x]" by blast
    from run_body_states [OF assms(2) inv0 s(1)] obtain h c where
      hcs: "states_value s = [h, c]" "length h = latent_dim" "length c = latent_dim" by blast
    have dm: "decoder_model m (target_seq s) (states_value s) =
        Inr ([decoder_dense m (fst (decoder_lstm m x (h, c)))], decoder_lstm m x (h, c))"
      by (simp add: s(2) hcs(1) decoder_model_single)
    from s(2) have "target_seq s \<noteq> []" by simp
    moreover from hcs(1) have "length (states_value s) = 2" by simp
    ultimately obtain s' where b: "loop_body g m s = Inr s'"
      using loop_body_ok [OF W assms(5)] by blast
    from loop_body_Inr [OF b] dm
    have next_state: "states_value s' =
        [fst (decoder_lstm m x (h, c)), snd (decoder_lstm m x (h, c))]"
      by auto
    have "run_body g m (Suc j) ?st0 = Inr s'"
      unfolding run_body_Suc by (simp add: s(1) b)
    with s hcs dm b next_state show ?thesis by blast
  qed
  from hc(2) len0 hc(1) mod init st0 loop steps show ?thesis
    by (intro exI [of _ h0] exI [of _ c0] exI [of _ ?st0]) (simp only: simp_thms)
qed

theorem decoder_state_threading_witness:
  "lstm_units (encoder counting_layers) latent_dim \<and>
   lstm_units (decoder_lstm counting_layers) latent_dim \<and>
   load_data demo_content = Inr demo_corpus \<and> build_vocab demo_corpus = Inr demo_vocab \<and>
   dense_units counting_layers (num_decoder_tokens demo_vocab) \<and>
   encoder_states counting_layers demo_input_seq = [replicate latent_dim 2, replicate latent_dim 4] \<and>
   (\<exists>s'. run_body demo_vocab counting_layers (Suc 0)
           \<lparr>target_seq = [[1, 0, 0, 0, 0]],
            states_value = [replicate latent_dim 2, replicate latent_dim 4],
            stop_condition = False, decoded_sentence = []\<rparr> = Inr s' \<and>
         states_value s' = [replicate latent_dim 3, replicate latent_dim 5])"
proof -
  let ?st0 = "\<lparr>target_seq = [[1, 0, 0, 0, 0]],
            states_value = [replicate latent_dim 2, replicate latent_dim 4],
            stop_condition = False, decoded_sentence = []\<rparr>"
  from decoder_state_threading [OF counting_units(1,2) demo_load demo_build counting_units(3),
      of demo_input_seq "[]"]
  obtain h0 c0 st0 where
    enc: "snd (lstm (encoder counting_layers) demo_input_seq
            (replicate latent_dim 0, replicate latent_dim 0)) = (h0, c0)"
      "encoder_states counting_layers demo_input_seq = [h0, c0]" and
    init: "initial_state demo_vocab counting_layers demo_input_seq = Inr st0" and
    steps: "\<forall>j. \<exists>s s' x h c.
        run_body demo_vocab counting_layers j st0 = Inr s \<and> target_seq s = [x] \<and>
        states_value s = [h, c] \<and>
        length h = latent_dim \<and> length c = latent_dim \<and>
        decoder_model counting_layers (target_seq s) (states_value s) =
          Inr ([decoder_dense counting_layers (fst (decoder_lstm counting_layers x (h, c)))],
               decoder_lstm counting_layers x (h, c)) \<and>
        loop_body demo_vocab counting_layers s = Inr s' \<and>
        run_body demo_vocab counting_layers (Suc j) st0 = Inr s' \<and>
        states_value s' = [fst (decoder_lstm counting_layers x (h, c)),
                           snd (decoder_lstm counting_layers x (h, c))]"
    by blast
  from enc counting_encoder have e: "encoder_states counting_layers demo_input_seq
      = [replicate latent_dim 2, replicate latent_dim 4]"
    by simp
  from init counting_initial have st0: "st0 = ?st0" by simp
  from steps [rule_format, of 0] obtain s s' x h c where
    s: "run_body demo_vocab counting_layers 0 st0 = Inr s" "states_value s = [h, c]" and
    n: "run_body demo_vocab counting_layers (Suc 0) st0 = Inr s'"
      "states_value s' = [fst (decoder_lstm counting_layers x (h, c)),
                          snd (decoder_lstm counting_layers x (h, c))]"
    by blast
  from s(1) have "s = st0" by simp
  with s(2) have r: "states_value ?st0 = [h, c]" by (simp add: st0)
  from r have "h = replicate latent_dim 2" "c = replicate latent_dim 4"
    by (simp_all add: st0)
  with n have "run_body demo_vocab counting_layers (Suc 0) ?st0 = Inr s'"
    and "states_value s' = [replicate latent_dim 3, replicate latent_dim 5]"
    by (simp_all add: st0 counting_layers_def del: run_body.simps)
  with e show ?thesis
    using counting_units demo_load demo_build by blast
qed

text \<open>
  Claim C2. With the vocabularies of a loaded data file and a dense layer of
  \<open>num_decoder_tokens\<close> units, \<open>decode_sequence\<close> returns the string of the
  step-by-step description: start from the one-hot start symbol and the encoder states;
  at each step run the decoder on the last token and the last state, take the first
  arg-max of the distribution, append its character, and feed the token and the new
  state back; stop at the first step whose character is the end marker or whose number
  is above \<open>max_decoder_seq_length\<close>.
\<close>

theorem decode_sequence_greedy:
  assumes "load_data content = Inr c" and "build_vocab c = Inr g"
    and "dense_units m (num_decoder_tokens g)"
  shows "decode_sequence g m input_seq = Inr (greedy_decode g m input_seq)"
proof -
  note W = loaded_and_indexed [OF assms(1,2)]
  have "sampling_loop g m (greedy_state g m input_seq 0)
    = Inr (greedy_state g m input_seq (greedy_steps g m input_seq))"
    by (rule greedy_loop [OF W assms(3)]) simp
  then show ?thesis
    by (simp add: decode_sequence_def greedy_initial [OF W] greedy_decode_def greedy_state_def
        del: sampling_loop.simps greedy_run.simps)
qed

theorem decode_sequence_greedy_witness:
  "load_data demo_content = Inr demo_corpus \<and> build_vocab demo_corpus = Inr demo_vocab \<and>
   dense_units demo_layers (num_decoder_tokens demo_vocab) \<and>
   decode_sequence demo_vocab demo_layers demo_input_seq = Inr [98, 10] \<and>
   greedy_decode demo_vocab demo_layers demo_input_seq = [98, 10] \<and>
   greedy_decode demo_vocab stuck_layers demo_input_seq = [98, 98, 98, 98, 98]"
proof -
  from decode_sequence_greedy [OF demo_load demo_build demo_dense_units, of demo_input_seq]
  have "greedy_decode demo_vocab demo_layers demo_input_seq = [98, 10]"
    unfolding demo_decode by simp
  moreover
  from decode_sequence_greedy [OF demo_load demo_build stuck_dense_units, of demo_input_seq]
  have "greedy_decode demo_vocab stuck_layers demo_input_seq = [98, 98, 98, 98, 98]"
    unfolding stuck_decode by simp
  ultimately show ?thesis
    using demo_load demo_build demo_dense_units demo_decode by simp
qed

end
